theory Spec2Isabelle
  imports Complex_Main "HOL-Library.AList" "HOL-Library.Multiset"
begin

section \<open>Data model of the game engine (src/Game/index.ts)\<close>

text \<open>
  The engine keeps all of its data in one \<open>Game\<close> object. Numbers of the source are
  JavaScript numbers, that is IEEE doubles. Counters and coordinates hold small whole
  numbers and are modelled as \<open>nat\<close>/\<open>int\<close>; amounts, cargo, cooldowns and fuel are
  modelled by their values, of type \<open>real\<close>, and are only stored and compared by the
  functions below. The one computation on fractions in them, the addition of fuel when
  cities merge, is not done in \<open>real\<close>: the addition is a parameter \<open>add\<close> of the model, so
  that what is proved holds for the addition of doubles. JavaScript \<open>Map\<close>s are
  association lists in insertion order, used through \<open>map_of\<close>, \<open>AList.update\<close> and
  \<open>AList.delete\<close>; a \<open>Map\<close> keyed by \<open>Cell\<close> objects is keyed by the position of the cell.
\<close>

datatype TEAM = A | B

datatype UnitType = WORKER | CART

datatype ResourceTypes = WOOD | COAL | URANIUM

datatype DIRECTIONS = NORTH | EAST | SOUTH | WEST | CENTER

type_synonym Position = "int \<times> int"

record Cargo =
  wood :: real
  coal :: real
  uranium :: real

text \<open>
  The classes \<open>Unit\<close>, \<open>City\<close>, \<open>CityTile\<close>, \<open>Cell\<close>, \<open>GameMap\<close> and \<open>Position\<close> are imported
  by index.ts and are not part of the source at hand. Their fields are the ones index.ts
  reads and writes; the few methods index.ts calls are modelled below, each marked.
\<close>

record Unit =
  unit_id :: string
  unit_team :: TEAM
  unit_type :: UnitType
  unit_pos :: Position
  unit_cooldown :: real
  cargo :: Cargo
  capacity :: real

record CityTile =
  tile_team :: TEAM
  cityid :: string
  tile_cooldown :: real
  adjacentCityTiles :: nat

record Resource =
  rtype :: ResourceTypes
  amount :: real

text \<open>A unit object is shared by its cell and its team registry: both hold its address.\<close>

type_synonym addr = nat

record Cell =
  resource :: "Resource option"
  citytile :: "CityTile option"
  units :: "(string \<times> addr) list"
  road :: real

record GameMap =
  width :: int
  height :: int
  cells :: "Position \<Rightarrow> Cell"

text \<open>A city is registered under its id; \<open>citycells\<close> lists the cells of its tiles.\<close>

record City =
  city_team :: TEAM
  fuel :: real
  citycells :: "Position list"

record TeamStats =
  fuelGenerated :: real
  resourcesCollected :: "ResourceTypes \<Rightarrow> real"
  cityTilesBuilt :: nat
  stat_workersBuilt :: nat
  stat_cartsBuilt :: nat
  roadsBuilt :: nat
  roadsPillaged :: nat

record TeamState =
  researchPoints :: nat
  team_units :: "(string \<times> addr) list"
  researched :: "ResourceTypes \<Rightarrow> bool"

record Parameters =
  CITY_WOOD_COST :: real
  WORKER_COLLECTION_RATE :: "ResourceTypes \<Rightarrow> real"
  MIN_ROAD :: real

record Game =
  gmap :: GameMap
  globalCityIDCount :: nat
  globalUnitIDCount :: nat
  cities :: "(string \<times> City) list"
  teamStats :: "TEAM \<Rightarrow> TeamStats"
  turn :: nat
  teamStates :: "TEAM \<Rightarrow> TeamState"
  parameters :: Parameters
  heap :: "addr \<Rightarrow> Unit"

subsection \<open>Methods of the imported classes\<close>

text \<open>
  Modelled from the spec: \<open>Unit.canAct\<close>, \<open>Unit.canMove\<close>, \<open>CityTile.canBuildUnit\<close> and
  \<open>CityTile.canResearch\<close> are missing from the source. The spec calls the cooldown the
  turns remaining before a unit or tile may next act, and lists "active cooldown" as the
  reason to refuse: the object may act when less than one turn of cooldown remains.
\<close>

definition canAct :: "Unit \<Rightarrow> bool" where
  "canAct u = (unit_cooldown u < 1)"

definition canMove :: "Unit \<Rightarrow> bool" where
  "canMove u = canAct u"

definition canBuildUnit :: "CityTile \<Rightarrow> bool" where
  "canBuildUnit ct = (tile_cooldown ct < 1)"

definition canResearch :: "CityTile \<Rightarrow> bool" where
  "canResearch ct = (tile_cooldown ct < 1)"

text \<open>
  Modelled from the spec: \<open>Cell.isCityTile\<close> and \<open>Cell.hasResource\<close> are missing from the
  source. A cell is a city tile when it carries the city-tile marker; it has a resource
  when it still holds a positive amount of one.
\<close>

definition isCityTile :: "Cell \<Rightarrow> bool" where
  "isCityTile c = (citytile c \<noteq> None)"

definition hasResource :: "Cell \<Rightarrow> bool" where
  "hasResource c = (case resource c of None \<Rightarrow> False | Some r \<Rightarrow> 0 < amount r)"

text \<open>
  Modelled from the spec: \<open>GameMap.inMap\<close>, \<open>GameMap.getCell\<close>, \<open>GameMap.getCellByPos\<close> and
  \<open>GameMap.getAdjacentCells\<close> are missing from the source. The map is a grid of
  \<open>width\<close> times \<open>height\<close> cells; the orthogonal neighbours of a cell are listed in the
  fixed order north, east, south, west (the order of the \<open>DIRECTIONS\<close> enumeration),
  leaving out the ones off the map. Cells are identified with their positions, so
  \<open>getCell\<close> and \<open>getCellByPos\<close> read the grid at a position.
\<close>

definition inMap :: "GameMap \<Rightarrow> Position \<Rightarrow> bool" where
  "inMap m p = (0 \<le> fst p \<and> fst p < width m \<and> 0 \<le> snd p \<and> snd p < height m)"

definition getCell :: "GameMap \<Rightarrow> Position \<Rightarrow> Cell" where
  "getCell m p = cells m p"

definition getAdjacentCells :: "GameMap \<Rightarrow> Position \<Rightarrow> Position list" where
  "getAdjacentCells m p =
     (if 0 < snd p then [(fst p, snd p - 1)] else []) @
     (if fst p < width m - 1 then [(fst p + 1, snd p)] else []) @
     (if snd p < height m - 1 then [(fst p, snd p + 1)] else []) @
     (if 0 < fst p then [(fst p - 1, snd p)] else [])"

text \<open>
  Modelled from the spec: \<open>Position.translate\<close> and \<open>Position.isAdjacent\<close> are missing from
  the source. East of (0,0) is (1,0) and west of (2,0) is (1,0); north decreases the row.
  Two positions are adjacent when they are at most one orthogonal step apart.
\<close>

fun translate :: "Position \<Rightarrow> DIRECTIONS \<Rightarrow> Position" where
  "translate (x, y) NORTH = (x, y - 1)"
| "translate (x, y) EAST = (x + 1, y)"
| "translate (x, y) SOUTH = (x, y + 1)"
| "translate (x, y) WEST = (x - 1, y)"
| "translate (x, y) CENTER = (x, y)"

definition isAdjacent :: "Position \<Rightarrow> Position \<Rightarrow> bool" where
  "isAdjacent p q = (\<bar>fst p - fst q\<bar> + \<bar>snd p - snd q\<bar> \<le> 1)"

subsection \<open>JavaScript maps and strings\<close>

definition map_size :: "('k \<times> 'v) list \<Rightarrow> nat" where
  "map_size m = length (remdups (map fst m))"

definition map_has :: "('k \<times> 'v) list \<Rightarrow> 'k \<Rightarrow> bool" where
  "map_has m k = (map_of m k \<noteq> None)"

text \<open>\<open>String.prototype.split(' ')\<close>: cuts at every space and never returns no token.\<close>

fun split_sp :: "string \<Rightarrow> string list" where
  "split_sp [] = [[]]"
| "split_sp (c # cs) =
     (if c = CHR '' '' then [] # split_sp cs
      else (case split_sp cs of [] \<Rightarrow> [[c]] | w # ws \<Rightarrow> (c # w) # ws))"

text \<open>
  \<open>parseInt\<close> is a built-in of JavaScript and not part of the source: the model takes it
  as a parameter, a function from strings to what \<open>parseInt\<close> may return, which is \<open>NaN\<close>,
  a whole number or an infinity. \<open>isNaN\<close> and the comparison with 0 are the ones of
  JavaScript.
\<close>

datatype Number = NaN | Finite int | PosInfinity | NegInfinity

definition isNaN :: "Number \<Rightarrow> bool" where
  "isNaN n = (n = NaN)"

definition negative :: "Number \<Rightarrow> bool" where
  "negative n = (case n of Finite i \<Rightarrow> i < 0 | NegInfinity \<Rightarrow> True | _ \<Rightarrow> False)"

text \<open>Decimal rendering of numbers, as string interpolation prints them.\<close>

definition digit_char :: "nat \<Rightarrow> char" where
  "digit_char d = char_of (48 + d)"

fun digits :: "nat \<Rightarrow> string" where
  "digits n = (if n < 10 then [digit_char n] else digits (n div 10) @ [digit_char (n mod 10)])"

declare digits.simps [simp del]

definition show_int :: "int \<Rightarrow> string" where
  "show_int i = (if i < 0 then CHR ''-'' # digits (nat (- i)) else digits (nat i))"

text \<open>
  Modelled from the spec: the constructor of \<open>City\<close> and \<open>CityTile.getTileID\<close> are missing
  from the source. A new city takes its id from the next value of the city counter; a tile
  is identified, among the things that act in a turn, by its city and its position.
\<close>

definition new_city_id :: "nat \<Rightarrow> string" where
  "new_city_id n = ''c_'' @ digits n"

definition getTileID :: "CityTile \<Rightarrow> Position \<Rightarrow> string" where
  "getTileID ct p = cityid ct @ ''_'' @ show_int (fst p) @ ''_'' @ show_int (snd p)"


section \<open>Command validation\<close>

text \<open>
  \<open>validateCommand\<close> turns one raw command into an action or throws a warning. The
  accumulator of the turn is an argument the function mutates; the model returns it,
  together with the game, whether the command is accepted or refused, so that what a
  refused command leaves behind is part of the result.
\<close>

record Command =
  agentID :: TEAM
  command :: string

record TeamAccumulated =
  workersBuilt :: nat
  cartsBuilt :: nat
  actionsPlaced :: "string set"

type_synonym AccumulatedActionStats = "TEAM \<Rightarrow> TeamAccumulated"

definition genInitialAccumulatedActionStats :: AccumulatedActionStats where
  "genInitialAccumulatedActionStats =
     (\<lambda>t. \<lparr>workersBuilt = 0, cartsBuilt = 0, actionsPlaced = {}\<rparr>)"

record MoveAction =
  move_team :: TEAM
  move_unitid :: string
  direction :: DIRECTIONS
  newcell :: Position

datatype Action =
    Pillage TEAM string
  | SpawnCity TEAM string
  | SpawnCart TEAM int int
  | SpawnWorker TEAM int int
  | Move MoveAction
  | Research TEAM int int
  | Transfer TEAM string string ResourceTypes Number

text \<open>The warnings of \<open>validateCommand\<close>, one for each message of the source.\<close>

datatype MatchWarn =
    InvalidCommand
  | MalformedCommand
  | PillageInvalidUnit
  | PillageCooldown
  | ExtraUnitCommand
  | BuildCityInvalidUnit
  | BuildCityOnCityTile
  | BuildCityOnResource
  | BuildCityCooldown
  | BuildCityInsufficientWood
  | BuildUnitInvalidCoordinates
  | BuildUnitNotOwned
  | ExtraCityTileCommand
  | BuildUnitCooldown
  | CartUnitCapReached
  | WorkerUnitCapReached
  | MoveNotOwned
  | MoveCooldown
  | MoveInvalidDirection
  | MoveOffMap
  | MoveOntoOpponentCityTile
  | ResearchInvalidCoordinates
  | ResearchNotOwned
  | ResearchCooldown
  | TransferSourceNotOwned
  | TransferDestinationNotOwned
  | TransferCooldown
  | TransferSameUnit
  | TransferNonAdjacent
  | TransferInvalidAmount
  | TransferInvalidResource

type_synonym validation = "(MatchWarn + Action option) \<times> Game \<times> AccumulatedActionStats"

definition throw :: "MatchWarn \<Rightarrow> Game \<Rightarrow> AccumulatedActionStats \<Rightarrow> validation" where
  "throw w g accs = (Inl w, g, accs)"

definition accept :: "Action option \<Rightarrow> Game \<Rightarrow> AccumulatedActionStats \<Rightarrow> validation" where
  "accept a g accs = (Inr a, g, accs)"

definition placeAction :: "TEAM \<Rightarrow> string \<Rightarrow> AccumulatedActionStats \<Rightarrow> AccumulatedActionStats" where
  "placeAction team k accs =
     accs(team := (accs team)\<lparr>actionsPlaced := insert k (actionsPlaced (accs team))\<rparr>)"

definition getUnit :: "Game \<Rightarrow> TEAM \<Rightarrow> string \<Rightarrow> Unit option" where
  "getUnit g team unitid = map_option (heap g) (map_of (team_units (teamStates g team)) unitid)"

definition parse_direction :: "string \<Rightarrow> DIRECTIONS option" where
  "parse_direction s =
     (if s = ''n'' then Some NORTH else if s = ''e'' then Some EAST
      else if s = ''s'' then Some SOUTH else if s = ''w'' then Some WEST
      else if s = ''c'' then Some CENTER else None)"

definition parse_resource :: "string \<Rightarrow> ResourceTypes option" where
  "parse_resource s =
     (if s = ''wood'' then Some WOOD else if s = ''coal'' then Some COAL
      else if s = ''uranium'' then Some URANIUM else None)"

definition workerUnitCapReached :: "Game \<Rightarrow> TEAM \<Rightarrow> nat \<Rightarrow> bool" where
  "workerUnitCapReached g team offset =
     (let teamCityTilesCount =
        fold (\<lambda>(k, city) n. if city_team city = team then n + length (citycells city) else n)
          (cities g) 0
      in map_size (team_units (teamStates g team)) + offset \<ge> teamCityTilesCount)"

definition cartUnitCapReached :: "Game \<Rightarrow> TEAM \<Rightarrow> nat \<Rightarrow> bool" where
  "cartUnitCapReached g team offset =
     (let teamCityTilesCount =
        fold (\<lambda>(k, city) n. if city_team city = team then n + length (citycells city) else n)
          (cities g) 0
      in map_size (team_units (teamStates g team)) + offset \<ge> teamCityTilesCount)"

definition validate_pillage ::
  "Game \<Rightarrow> TEAM \<Rightarrow> string list \<Rightarrow> AccumulatedActionStats \<Rightarrow> validation" where
  "validate_pillage g team args accs =
     (if length args \<noteq> 1 then throw MalformedCommand g accs
      else let uid = args ! 0 in
        case getUnit g team uid of
          None \<Rightarrow> throw PillageInvalidUnit g accs
        | Some unit \<Rightarrow>
            if \<not> canAct unit then throw PillageCooldown g accs
            else if uid \<in> actionsPlaced (accs team) then throw ExtraUnitCommand g accs
            else accept (Some (Pillage team uid)) g (placeAction team uid accs))"

definition validate_build_city ::
  "Game \<Rightarrow> TEAM \<Rightarrow> string list \<Rightarrow> AccumulatedActionStats \<Rightarrow> validation" where
  "validate_build_city g team args accs =
     (if length args \<noteq> 1 then throw MalformedCommand g accs
      else let uid = args ! 0 in
        case getUnit g team uid of
          None \<Rightarrow> throw BuildCityInvalidUnit g accs
        | Some unit \<Rightarrow>
            let cell = getCell (gmap g) (unit_pos unit) in
            if isCityTile cell then throw BuildCityOnCityTile g accs
            else if hasResource cell then throw BuildCityOnResource g accs
            else if \<not> canAct unit then throw BuildCityCooldown g accs
            else if wood (cargo unit) < CITY_WOOD_COST (parameters g)
              then throw BuildCityInsufficientWood g accs
            else if uid \<in> actionsPlaced (accs team) then throw ExtraUnitCommand g accs
            else accept (Some (SpawnCity team uid)) g (placeAction team uid accs))"

text \<open>
  The two build verbs share one case of the switch; \<open>cart\<close> tells which one it is.
  Modelled from the spec: a position one of whose coordinates is infinite is not on the
  map, so \<open>inMap\<close> is asked about whole coordinates only.
\<close>

definition validate_build_unit ::
  "(string \<Rightarrow> Number) \<Rightarrow> bool \<Rightarrow> Game \<Rightarrow> TEAM \<Rightarrow> string list \<Rightarrow> AccumulatedActionStats \<Rightarrow>
   validation" where
  "validate_build_unit parseInt cart g team args accs =
     (if length args \<noteq> 2 then throw MalformedCommand g accs
      else case (parseInt (args ! 0), parseInt (args ! 1)) of
        (Finite x, Finite y) \<Rightarrow>
          if \<not> inMap (gmap g) (x, y) then throw BuildUnitInvalidCoordinates g accs
          else (case citytile (getCell (gmap g) (x, y)) of
            None \<Rightarrow> throw BuildUnitNotOwned g accs
          | Some ct \<Rightarrow>
              if tile_team ct \<noteq> team then throw BuildUnitNotOwned g accs
              else if getTileID ct (x, y) \<in> actionsPlaced (accs team)
                then throw ExtraCityTileCommand g accs
              else if \<not> canBuildUnit ct then throw BuildUnitCooldown g accs
              else if cart \<and> cartUnitCapReached g team (cartsBuilt (accs team))
                then throw CartUnitCapReached g accs
              else if \<not> cart \<and> workerUnitCapReached g team (workersBuilt (accs team))
                then throw WorkerUnitCapReached g accs
              else
                let accs1 = placeAction team (getTileID ct (x, y)) accs in
                if cart then
                  accept (Some (SpawnCart team x y)) g
                    (accs1(team := (accs1 team)\<lparr>cartsBuilt := cartsBuilt (accs1 team) + 1\<rparr>))
                else
                  accept (Some (SpawnWorker team x y)) g
                    (accs1(team := (accs1 team)\<lparr>workersBuilt := workersBuilt (accs1 team) + 1\<rparr>)))
      | _ \<Rightarrow> throw BuildUnitInvalidCoordinates g accs)"

definition validate_move ::
  "Game \<Rightarrow> TEAM \<Rightarrow> string list \<Rightarrow> AccumulatedActionStats \<Rightarrow> validation" where
  "validate_move g team args accs =
     (if length args \<noteq> 2 then throw MalformedCommand g accs
      else let uid = args ! 0 in
        case getUnit g team uid of
          None \<Rightarrow> throw MoveNotOwned g accs
        | Some unit \<Rightarrow>
            if \<not> canMove unit then throw MoveCooldown g accs
            else if uid \<in> actionsPlaced (accs team) then throw ExtraUnitCommand g accs
            else (case parse_direction (args ! 1) of
              None \<Rightarrow> throw MoveInvalidDirection g accs
            | Some dir \<Rightarrow>
                let newpos = translate (unit_pos unit) dir in
                if dir \<noteq> CENTER \<and> \<not> inMap (gmap g) newpos then throw MoveOffMap g accs
                else if dir \<noteq> CENTER \<and>
                    (case citytile (getCell (gmap g) newpos) of
                       None \<Rightarrow> False | Some ct \<Rightarrow> tile_team ct \<noteq> team)
                  then throw MoveOntoOpponentCityTile g accs
                else accept
                  (Some (Move \<lparr>move_team = team, move_unitid = uid, direction = dir,
                     newcell = newpos\<rparr>))
                  g (placeAction team uid accs)))"

definition validate_research ::
  "(string \<Rightarrow> Number) \<Rightarrow> Game \<Rightarrow> TEAM \<Rightarrow> string list \<Rightarrow> AccumulatedActionStats \<Rightarrow> validation"
  where
  "validate_research parseInt g team args accs =
     (if length args \<noteq> 2 then throw MalformedCommand g accs
      else case (parseInt (args ! 0), parseInt (args ! 1)) of
        (Finite x, Finite y) \<Rightarrow>
          if \<not> inMap (gmap g) (x, y) then throw ResearchInvalidCoordinates g accs
          else (case citytile (getCell (gmap g) (x, y)) of
            None \<Rightarrow> throw ResearchNotOwned g accs
          | Some ct \<Rightarrow>
              if tile_team ct \<noteq> team then throw ResearchNotOwned g accs
              else if \<not> canResearch ct then throw ResearchCooldown g accs
              else if getTileID ct (x, y) \<in> actionsPlaced (accs team)
                then throw ExtraCityTileCommand g accs
              else accept (Some (Research team x y)) g
                (placeAction team (getTileID ct (x, y)) accs))
      | _ \<Rightarrow> throw ResearchInvalidCoordinates g accs)"

definition validate_transfer ::
  "(string \<Rightarrow> Number) \<Rightarrow> Game \<Rightarrow> TEAM \<Rightarrow> string list \<Rightarrow> AccumulatedActionStats \<Rightarrow> validation"
  where
  "validate_transfer parseInt g team args accs =
     (if length args \<noteq> 4 then throw MalformedCommand g accs
      else let srcID = args ! 0; destID = args ! 1; amount = parseInt (args ! 3) in
        case getUnit g team srcID of
          None \<Rightarrow> throw TransferSourceNotOwned g accs
        | Some srcUnit \<Rightarrow>
            (case getUnit g team destID of
              None \<Rightarrow> throw TransferDestinationNotOwned g accs
            | Some destUnit \<Rightarrow>
                if \<not> canAct srcUnit then throw TransferCooldown g accs
                else if srcID \<in> actionsPlaced (accs team) then throw ExtraUnitCommand g accs
                else if srcID = destID then throw TransferSameUnit g accs
                else if \<not> isAdjacent (unit_pos srcUnit) (unit_pos destUnit)
                  then throw TransferNonAdjacent g accs
                else if isNaN amount \<or> negative amount
                  then throw TransferInvalidAmount g accs
                else (case parse_resource (args ! 2) of
                  None \<Rightarrow> throw TransferInvalidResource g accs
                | Some r \<Rightarrow>
                    accept (Some (Transfer team srcID destID r amount)) g
                      (placeAction team srcID accs))))"

definition debug_verbs :: "string list" where
  "debug_verbs = [''dc'', ''dl'', ''dx'', ''dt'', ''dst'']"

definition validateCommand ::
  "(string \<Rightarrow> Number) \<Rightarrow> Game \<Rightarrow> Command \<Rightarrow> AccumulatedActionStats \<Rightarrow> validation" where
  "validateCommand parseInt g cmd accumulatedActionStats =
     (case split_sp (command cmd) of
        [] \<Rightarrow> throw InvalidCommand g accumulatedActionStats
      | action # args \<Rightarrow>
          let team = agentID cmd in
          if action \<in> set debug_verbs then accept None g accumulatedActionStats
          else if action = ''p'' then validate_pillage g team args accumulatedActionStats
          else if action = ''bcity'' then validate_build_city g team args accumulatedActionStats
          else if action = ''bc'' then validate_build_unit parseInt True g team args
            accumulatedActionStats
          else if action = ''bw'' then validate_build_unit parseInt False g team args
            accumulatedActionStats
          else if action = ''m'' then validate_move g team args accumulatedActionStats
          else if action = ''r'' then validate_research parseInt g team args
            accumulatedActionStats
          else if action = ''t'' then validate_transfer parseInt g team args
            accumulatedActionStats
          else throw MalformedCommand g accumulatedActionStats)"


text \<open>The city tiles a team owns, counted over the registry of cities.\<close>

definition teamCityTilesCount :: "Game \<Rightarrow> TEAM \<Rightarrow> nat" where
  "teamCityTilesCount g team =
     sum_list (map (\<lambda>(k, city). if city_team city = team then length (citycells city) else 0)
       (cities g))"

definition liveUnits :: "Game \<Rightarrow> TEAM \<Rightarrow> nat" where
  "liveUnits g team = map_size (team_units (teamStates g team))"

section \<open>Cities\<close>

text \<open>
  Modelled from the spec: \<open>Cell.setCityTile\<close>, the constructors of \<open>City\<close> and \<open>CityTile\<close> and
  \<open>City.addCityTile\<close> are missing from the source. Placing a city tile attaches a fresh
  tile of the team and city to the cell, with no cooldown and an adjacency counter of 0; a
  new city has no fuel and no tiles; adding a tile to a city appends its cell to the
  cells of the city.
\<close>

definition update_cell :: "Position \<Rightarrow> (Cell \<Rightarrow> Cell) \<Rightarrow> Game \<Rightarrow> Game" where
  "update_cell p f g = g\<lparr>gmap := (gmap g)\<lparr>cells := (cells (gmap g))(p := f (cells (gmap g) p))\<rparr>\<rparr>"

definition update_tile :: "Position \<Rightarrow> (CityTile \<Rightarrow> CityTile) \<Rightarrow> Game \<Rightarrow> Game" where
  "update_tile p f g = update_cell p (\<lambda>c. c\<lparr>citytile := map_option f (citytile c)\<rparr>) g"

definition setCityTile :: "TEAM \<Rightarrow> string \<Rightarrow> Position \<Rightarrow> Game \<Rightarrow> Game" where
  "setCityTile team cid p g =
     update_cell p (\<lambda>c. c\<lparr>citytile := Some \<lparr>tile_team = team, cityid = cid, tile_cooldown = 0,
       adjacentCityTiles = 0\<rparr>\<rparr>) g"

definition newCity :: "TEAM \<Rightarrow> City" where
  "newCity team = \<lparr>city_team = team, fuel = 0, citycells = []\<rparr>"

definition addCityTile :: "string \<Rightarrow> Position \<Rightarrow> Game \<Rightarrow> Game" where
  "addCityTile cid p g =
     g\<lparr>cities := AList.map_entry cid (\<lambda>c. c\<lparr>citycells := citycells c @ [p]\<rparr>) (cities g)\<rparr>"

definition tileAt :: "Game \<Rightarrow> Position \<Rightarrow> CityTile option" where
  "tileAt g p = citytile (getCell (gmap g) p)"

definition isTeamTile :: "Game \<Rightarrow> TEAM \<Rightarrow> Position \<Rightarrow> bool" where
  "isTeamTile g team p = (case tileAt g p of None \<Rightarrow> False | Some ct \<Rightarrow> tile_team ct = team)"

definition adjSameTeamCityTiles :: "Game \<Rightarrow> TEAM \<Rightarrow> Position \<Rightarrow> Position list" where
  "adjSameTeamCityTiles g team p = filter (isTeamTile g team) (getAdjacentCells (gmap g) p)"

text \<open>A JavaScript \<open>Set\<close> filled in the order of a list: each element once, first come first.\<close>

definition set_of_list :: "'a list \<Rightarrow> 'a list" where
  "set_of_list xs = rev (remdups (rev xs))"

definition cityIdsFound :: "Game \<Rightarrow> TEAM \<Rightarrow> Position \<Rightarrow> string list" where
  "cityIdsFound g team p =
     set_of_list (map (\<lambda>q. cityid (the (tileAt g q))) (adjSameTeamCityTiles g team p))"

text \<open>
  The inner loop of a merge: every cell of the old city gets the id of the merged city
  and is added to it. A cell of the old city without a tile makes the source fail.
\<close>

fun absorb_cells :: "string \<Rightarrow> Position list \<Rightarrow> Game \<Rightarrow> Game option" where
  "absorb_cells cid [] g = Some g"
| "absorb_cells cid (q # qs) g =
     (case tileAt g q of
        None \<Rightarrow> None
      | Some ct \<Rightarrow> absorb_cells cid qs (addCityTile cid q (update_tile q (\<lambda>t. t\<lparr>cityid := cid\<rparr>) g)))"

text \<open>
  One round of \<open>cityIdsFound.forEach\<close>, for the id \<open>k\<close>. The fuel of the old city is added
  to the fuel of the merged one by \<open>add\<close>, the addition of JavaScript numbers.
\<close>

definition merge_city ::
  "(real \<Rightarrow> real \<Rightarrow> real) \<Rightarrow> string \<Rightarrow> string \<Rightarrow> Game \<Rightarrow> Game option" where
  "merge_city add cid k g =
     (if k = cid then Some g
      else case map_of (cities g) k of
        None \<Rightarrow> None
      | Some oldcity \<Rightarrow>
          (case absorb_cells cid (citycells oldcity) g of
             None \<Rightarrow> None
           | Some g1 \<Rightarrow>
               Some (g1\<lparr>cities := AList.delete k
                 (AList.map_entry cid (\<lambda>c. c\<lparr>fuel := add (fuel c) (fuel oldcity)\<rparr>) (cities g1))\<rparr>)))"

fun merge_cities ::
  "(real \<Rightarrow> real \<Rightarrow> real) \<Rightarrow> string \<Rightarrow> string list \<Rightarrow> Game \<Rightarrow> Game option" where
  "merge_cities add cid [] g = Some g"
| "merge_cities add cid (k # ks) g =
     (case merge_city add cid k g of None \<Rightarrow> None | Some g1 \<Rightarrow> merge_cities add cid ks g1)"

text \<open>
  \<open>spawnCityTile\<close>. The optional argument \<open>cityid\<close> counts when it is a non-empty string.
  \<open>None\<close> is the failure of the source on a city id that is not in the registry.
  Modelled from the spec: the map has no cell at a position off the map, and the source
  fails on the cell it does not get.
\<close>

definition spawnCityTile ::
  "(real \<Rightarrow> real \<Rightarrow> real) \<Rightarrow> Game \<Rightarrow> TEAM \<Rightarrow> Position \<Rightarrow> string option \<Rightarrow> Game option" where
  "spawnCityTile add g team p cityid_arg =
     (let adjSame = adjSameTeamCityTiles g team p;
          idsFound = cityIdsFound g team p
      in if \<not> inMap (gmap g) p then None
         else if adjSame = [] then
           (let given = (case cityid_arg of None \<Rightarrow> False | Some s \<Rightarrow> s \<noteq> []);
                cid = (if given then the cityid_arg else new_city_id (globalCityIDCount g + 1));
                g1 = (if given then g else g\<lparr>globalCityIDCount := globalCityIDCount g + 1\<rparr>);
                g2 = setCityTile team cid p g1
            in Some (g2\<lparr>cities := AList.update cid ((newCity team)\<lparr>citycells := [p]\<rparr>) (cities g2)\<rparr>))
         else
           (let cid = cityid (the (tileAt g (hd adjSame)));
                g1 = setCityTile team cid p g;
                g2 = update_tile p (\<lambda>t. t\<lparr>adjacentCityTiles := length adjSame\<rparr>) g1;
                g3 = fold (\<lambda>q. update_tile q (\<lambda>t. t\<lparr>adjacentCityTiles := adjacentCityTiles t + 1\<rparr>))
                       adjSame g2
            in case map_of (cities g) cid of
                 None \<Rightarrow> None
               | Some city \<Rightarrow> merge_cities add cid idsFound (addCityTile cid p g3)))"

text \<open>\<open>destroyCity\<close>; \<open>None\<close> is the failure of the source on an id that is not registered.\<close>

definition destroyCity :: "Game \<Rightarrow> string \<Rightarrow> Game option" where
  "destroyCity g cityID =
     (case map_of (cities g) cityID of
        None \<Rightarrow> None
      | Some city \<Rightarrow>
          Some (fold (\<lambda>q. update_cell q (\<lambda>c. c\<lparr>citytile := None, road := MIN_ROAD (parameters g)\<rparr>))
            (citycells city) (g\<lparr>cities := AList.delete cityID (cities g)\<rparr>)))"

section \<open>Invariants of the city registry\<close>

text \<open>The size of the map; none of the functions above changes it.\<close>

definition dims :: "Game \<Rightarrow> int \<times> int" where
  "dims g = (width (gmap g), height (gmap g))"

text \<open>
  The registry and the tiles agree: every id is registered once; every city tile lies on
  the map and belongs to a registered city of its team that lists its cell; every
  registered city lists at least one cell, each cell once, and only cells whose tiles
  carry its id.
\<close>

definition registry_ok :: "Game \<Rightarrow> bool" where
  "registry_ok g \<longleftrightarrow>
     distinct (map fst (cities g)) \<and>
     (\<forall>p ct. tileAt g p = Some ct \<longrightarrow>
        inMap (gmap g) p \<and>
        (\<exists>c. map_of (cities g) (cityid ct) = Some c \<and> city_team c = tile_team ct \<and>
           p \<in> set (citycells c))) \<and>
     (\<forall>k c. map_of (cities g) k = Some c \<longrightarrow>
        citycells c \<noteq> [] \<and> distinct (citycells c) \<and>
        (\<forall>p \<in> set (citycells c). \<exists>ct. tileAt g p = Some ct \<and> cityid ct = k))"

text \<open>Adjacent tiles of one team belong to the same city.\<close>

definition adjacent_share :: "Game \<Rightarrow> bool" where
  "adjacent_share g \<longleftrightarrow>
     (\<forall>p q ctp ctq. tileAt g p = Some ctp \<longrightarrow> tileAt g q = Some ctq \<longrightarrow>
        q \<in> set (getAdjacentCells (gmap g) p) \<longrightarrow> tile_team ctp = tile_team ctq \<longrightarrow>
        cityid ctp = cityid ctq)"

text \<open>The counter of every tile is the number of its neighbours of the same team.\<close>

definition counters_ok :: "Game \<Rightarrow> bool" where
  "counters_ok g \<longleftrightarrow>
     (\<forall>p ct. tileAt g p = Some ct \<longrightarrow>
        adjacentCityTiles ct = length (adjSameTeamCityTiles g (tile_team ct) p))"

text \<open>Every registered id was made from a value the city counter has passed.\<close>

definition ids_generated :: "Game \<Rightarrow> bool" where
  "ids_generated g \<longleftrightarrow>
     (\<forall>k \<in> fst ` set (cities g). \<exists>n. k = new_city_id n \<and> n \<le> globalCityIDCount g)"

definition wf :: "Game \<Rightarrow> bool" where
  "wf g \<longleftrightarrow> registry_ok g \<and> adjacent_share g \<and> counters_ok g \<and> ids_generated g"

text \<open>
  Closed forms of the steps of \<open>spawnCityTile\<close>, for the proofs. \<open>absorbed\<close> is what the
  inner loop of a merge makes of the game when every cell of the old city carries a tile.
  A merge gives the tiles of the city \<open>k\<close> (\<open>renamed\<close>), in the end the tiles of all the
  cities \<open>ks\<close> (\<open>renamed_all\<close>), the id \<open>cid\<close>; the merged city takes the fuel and the cells of
  the old city (\<open>absorb_city\<close>), in the end of all the old cities in their order
  (\<open>merged\<close>). \<open>cityOf\<close> is the city registered under an id.
\<close>

definition absorbed :: "string \<Rightarrow> Position list \<Rightarrow> Game \<Rightarrow> Game" where
  "absorbed cid qs g =
     fold (\<lambda>q g. addCityTile cid q (update_tile q (\<lambda>t. t\<lparr>cityid := cid\<rparr>) g)) qs g"

definition renamed :: "string \<Rightarrow> string \<Rightarrow> CityTile \<Rightarrow> CityTile" where
  "renamed k cid t = (if cityid t = k then t\<lparr>cityid := cid\<rparr> else t)"

definition absorb_city :: "(real \<Rightarrow> real \<Rightarrow> real) \<Rightarrow> City \<Rightarrow> City \<Rightarrow> City" where
  "absorb_city add old c =
     c\<lparr>fuel := add (fuel c) (fuel old), citycells := citycells c @ citycells old\<rparr>"

definition renamed_all :: "string list \<Rightarrow> string \<Rightarrow> CityTile \<Rightarrow> CityTile" where
  "renamed_all ks cid t = (if cityid t \<in> set ks then t\<lparr>cityid := cid\<rparr> else t)"

definition merged :: "(real \<Rightarrow> real \<Rightarrow> real) \<Rightarrow> City \<Rightarrow> City list \<Rightarrow> City" where
  "merged add c olds =
     c\<lparr>fuel := foldl add (fuel c) (map fuel olds),
       citycells := citycells c @ concat (map citycells olds)\<rparr>"

definition cityOf :: "Game \<Rightarrow> string \<Rightarrow> City" where
  "cityOf g k = the (map_of (cities g) k)"

text \<open>
  \<open>firstCityId\<close> is the id of the first neighbouring tile of the team, \<open>attached\<close> the game
  in which the new tile has been given this id and added to its city and the counters
  have been set, before any merge; \<open>founded\<close> is the game in which the new tile has founded
  a city under the next id of the counter.
\<close>

definition firstCityId :: "Game \<Rightarrow> TEAM \<Rightarrow> Position \<Rightarrow> string" where
  "firstCityId g team p = cityid (the (tileAt g (hd (adjSameTeamCityTiles g team p))))"

definition attached :: "TEAM \<Rightarrow> Position \<Rightarrow> Game \<Rightarrow> Game" where
  "attached team p g =
     (let adjSame = adjSameTeamCityTiles g team p;
          cid = cityid (the (tileAt g (hd adjSame)))
      in addCityTile cid p
           (fold (\<lambda>q. update_tile q (\<lambda>t. t\<lparr>adjacentCityTiles := adjacentCityTiles t + 1\<rparr>)) adjSame
             (update_tile p (\<lambda>t. t\<lparr>adjacentCityTiles := length adjSame\<rparr>)
               (setCityTile team cid p g))))"

definition founded :: "TEAM \<Rightarrow> Position \<Rightarrow> Game \<Rightarrow> Game" where
  "founded team p g =
     (let cid = new_city_id (globalCityIDCount g + 1);
          g2 = setCityTile team cid p (g\<lparr>globalCityIDCount := globalCityIDCount g + 1\<rparr>)
      in g2\<lparr>cities := AList.update cid ((newCity team)\<lparr>citycells := [p]\<rparr>) (cities g2)\<rparr>)"

text \<open>The number a string of decimal digits stands for.\<close>

definition undigits :: "string \<Rightarrow> nat" where
  "undigits s = foldl (\<lambda>a c. 10 * a + (of_char c - 48)) 0 s"

text \<open>Fuel deposited from outside: the fuel of every city replaced.\<close>

definition refuel :: "(string \<Rightarrow> real) \<Rightarrow> Game \<Rightarrow> Game" where
  "refuel f g = g\<lparr>cities := map (\<lambda>(k, c). (k, c\<lparr>fuel := f k\<rparr>)) (cities g)\<rparr>"

text \<open>A game without cities: the registry is empty and no cell carries a city tile.\<close>

definition cityFree :: "Game \<Rightarrow> bool" where
  "cityFree g \<longleftrightarrow> cities g = [] \<and> (\<forall>p. tileAt g p = None)"

text \<open>Tiles of one team placed one after the other, no city id given.\<close>

fun spawnCityTiles ::
  "(real \<Rightarrow> real \<Rightarrow> real) \<Rightarrow> Game \<Rightarrow> TEAM \<Rightarrow> Position list \<Rightarrow> Game option" where
  "spawnCityTiles add g team [] = Some g"
| "spawnCityTiles add g team (p # ps) =
     (case spawnCityTile add g team p None of
        None \<Rightarrow> None
      | Some g' \<Rightarrow> spawnCityTiles add g' team ps)"

text \<open>
  The games reached from a game without cities by calls of \<open>spawnCityTile\<close> that are given
  no city id and a cell without a city tile, and by calls of \<open>destroyCity\<close>, every call
  returning.
\<close>

inductive reachable :: "(real \<Rightarrow> real \<Rightarrow> real) \<Rightarrow> Game \<Rightarrow> bool" for add where
  start: "cityFree g \<Longrightarrow> reachable add g"
| spawn: "reachable add g \<Longrightarrow> tileAt g p = None \<Longrightarrow>
     spawnCityTile add g team p None = Some g' \<Longrightarrow> reachable add g'"
| destroy: "reachable add g \<Longrightarrow> destroyCity g k = Some g' \<Longrightarrow> reachable add g'"

text \<open>
  Three cells that hang together: one of them is next to the other two.
\<close>

definition connected3 :: "GameMap \<Rightarrow> Position \<Rightarrow> Position \<Rightarrow> Position \<Rightarrow> bool" where
  "connected3 m a b c \<longleftrightarrow>
     (b \<in> set (getAdjacentCells m a) \<and> c \<in> set (getAdjacentCells m a)) \<or>
     (a \<in> set (getAdjacentCells m b) \<and> c \<in> set (getAdjacentCells m b)) \<or>
     (a \<in> set (getAdjacentCells m c) \<and> b \<in> set (getAdjacentCells m c))"

section \<open>Movement\<close>

text \<open>
  \<open>handleMovementActions\<close> prunes the move actions of a turn. It first files every action
  under the cell it goes to, in the \<open>Map\<close> \<open>cellsToActionsToThere\<close>, and collects the ids of
  the units that have an action in \<open>movingUnits\<close>. The cell of an action is identified
  with its position.
\<close>

type_synonym ActionMap = "(Position \<times> MoveAction list) list"

text \<open>The values of a \<open>Map\<close>, in the order of its keys.\<close>

definition map_values :: "('k \<times> 'v) list \<Rightarrow> 'v list" where
  "map_values m = map (\<lambda>k. the (map_of m k)) (remdups (map fst m))"

definition addAction :: "MoveAction \<Rightarrow> ActionMap \<Rightarrow> ActionMap" where
  "addAction action m =
     (case map_of m (newcell action) of
        None \<Rightarrow> AList.update (newcell action) [action] m
      | Some currActions \<Rightarrow> AList.update (newcell action) (currActions @ [action]) m)"

definition cellsToActionsToThere :: "MoveAction list \<Rightarrow> ActionMap" where
  "cellsToActionsToThere actions = fold addAction actions []"

definition movingUnits :: "MoveAction list \<Rightarrow> string set" where
  "movingUnits actions = set (map move_unitid actions)"

text \<open>
  \<open>revertAction\<close> looks up the cell the unit of the action stands on; unless that cell is
  a city tile, it removes the entry of the cell from the map and calls itself on each of
  the actions that were filed there, in order. The model keeps the calls that are still
  to be made in a list: the second argument is the action of the current call followed by
  the pending ones, and the actions found under the cell are put in front of the pending
  ones, which is the order in which the source makes its calls. \<open>None\<close> is the failure of
  the source on a unit that is not in the registry of its team. Modelled from the spec: the
  map has no cell at a position off the map, and the source fails on the cell it does not
  get. The warning that the source hands to \<open>match\<close> for each reverted action is not part of
  the result and is left out.
\<close>

function revertAction :: "Game \<Rightarrow> MoveAction list \<Rightarrow> ActionMap \<Rightarrow> ActionMap option" where
  "revertAction g [] m = Some m"
| "revertAction g (action # pending) m =
     (case getUnit g (move_team action) (move_unitid action) of
        None \<Rightarrow> None
      | Some unit \<Rightarrow>
          let origcell = unit_pos unit in
          if \<not> inMap (gmap g) origcell then None
          else if isCityTile (getCell (gmap g) origcell) then revertAction g pending m
          else (case map_of m origcell of
            None \<Rightarrow> revertAction g pending (AList.delete origcell m)
          | Some collidingActions \<Rightarrow>
              revertAction g (collidingActions @ pending) (AList.delete origcell m)))"
  by pat_completeness auto

termination revertAction
proof -
  have less: "length (AList.delete k m) < length m" if "map_of m k = Some v"
    for k :: Position and v and m :: ActionMap
    using that
    by (induction m) (auto simp: less_Suc_eq_le length_filter_le AList.delete_eq split: if_splits)
  have same: "AList.delete k m = m" if "map_of m k = None" for k :: Position and m :: ActionMap
    using that by (simp add: AList.delete_id map_of_eq_None_iff)
  show ?thesis
    by (relation "measures [\<lambda>(g, pending, m). length m, \<lambda>(g, pending, m). length pending]")
      (auto simp: less same)
qed

text \<open>
  The body of the loop over \<open>actionedCells\<close>, the keys the map had before the loop.
  \<open>unitThereIsStill\<close> says that no unit on the cell has an action in the batch;
  \<open>actionsToRevert\<close> are the actions the loop collects for the cell: all of them when
  several go to a cell that is not a city tile, the single one when the cell is not a city
  tile, holds exactly one unit and this unit has no action.
\<close>

definition unitThereIsStill :: "Game \<Rightarrow> string set \<Rightarrow> Position \<Rightarrow> bool" where
  "unitThereIsStill g moving cell =
     list_all (\<lambda>a. unit_id (heap g a) \<notin> moving) (map_values (units (getCell (gmap g) cell)))"

definition actionsToRevert ::
  "Game \<Rightarrow> string set \<Rightarrow> Position \<Rightarrow> MoveAction list \<Rightarrow> MoveAction list" where
  "actionsToRevert g moving cell currActions =
     (if length currActions > 1 then
        (if \<not> isCityTile (getCell (gmap g) cell) then currActions else [])
      else if length currActions = 1 then
        (if \<not> isCityTile (getCell (gmap g) cell) \<and>
            map_size (units (getCell (gmap g) cell)) = 1 \<and> unitThereIsStill g moving cell
         then [currActions ! 0] else [])
      else [])"

definition visitCell :: "Game \<Rightarrow> string set \<Rightarrow> Position \<Rightarrow> ActionMap \<Rightarrow> ActionMap option" where
  "visitCell g moving cell m =
     (case map_of m cell of
        None \<Rightarrow> Some m
      | Some currActions \<Rightarrow>
          (case revertAction g (actionsToRevert g moving cell currActions) m of
             None \<Rightarrow> None
           | Some m1 \<Rightarrow>
               Some (fold (\<lambda>action. AList.delete (newcell action))
                 (actionsToRevert g moving cell currActions) m1)))"

fun visitCells :: "Game \<Rightarrow> string set \<Rightarrow> Position list \<Rightarrow> ActionMap \<Rightarrow> ActionMap option" where
  "visitCells g moving [] m = Some m"
| "visitCells g moving (cell # actionedCells) m =
     (case visitCell g moving cell m of
        None \<Rightarrow> None
      | Some m1 \<Rightarrow> visitCells g moving actionedCells m1)"

definition handleMovementActions :: "Game \<Rightarrow> MoveAction list \<Rightarrow> MoveAction list option" where
  "handleMovementActions g actions =
     (let m = cellsToActionsToThere actions
      in case visitCells g (movingUnits actions) (map fst m) m of
           None \<Rightarrow> None
         | Some pruned \<Rightarrow> Some (concat (map snd pruned)))"

text \<open>
  What the movement leaves of a batch, said without the loops. The origin of an action is
  the cell its unit stands on; an action can be looked up when its unit is registered
  with its team and stands on the map. A cell is bumped when it is not a city tile and
  either several actions go to it, or one action goes to it while it holds exactly one unit
  and this unit has no action. The rejected cells are the bumped cells and, backwards, the
  origin of every action that goes to a rejected cell, unless the origin is a city tile.
\<close>

definition origin :: "Game \<Rightarrow> MoveAction \<Rightarrow> Position" where
  "origin g a = unit_pos (the (getUnit g (move_team a) (move_unitid a)))"

definition movable :: "Game \<Rightarrow> MoveAction \<Rightarrow> bool" where
  "movable g a =
     (case getUnit g (move_team a) (move_unitid a) of
        None \<Rightarrow> False
      | Some u \<Rightarrow> inMap (gmap g) (unit_pos u))"

definition actionsTo :: "Position \<Rightarrow> MoveAction list \<Rightarrow> MoveAction list" where
  "actionsTo p acts = filter (\<lambda>a. newcell a = p) acts"

definition cityCell :: "Game \<Rightarrow> Position \<Rightarrow> bool" where
  "cityCell g p = isCityTile (getCell (gmap g) p)"

definition bump :: "Game \<Rightarrow> MoveAction list \<Rightarrow> Position \<Rightarrow> bool" where
  "bump g acts p \<longleftrightarrow>
     \<not> cityCell g p \<and>
     (length (actionsTo p acts) > 1 \<or>
      (length (actionsTo p acts) = 1 \<and> map_size (units (getCell (gmap g) p)) = 1 \<and>
       unitThereIsStill g (movingUnits acts) p))"

inductive_set rejectedCells :: "Game \<Rightarrow> MoveAction list \<Rightarrow> Position set"
  for g :: Game and acts :: "MoveAction list" where
  direct: "bump g acts p \<Longrightarrow> p \<in> rejectedCells g acts"
| backward: "a \<in> set acts \<Longrightarrow> newcell a \<in> rejectedCells g acts \<Longrightarrow> \<not> cityCell g (origin g a) \<Longrightarrow>
     origin g a \<in> rejectedCells g acts"

text \<open>
  The state of the loops is the set \<open>K\<close> of the cells whose entry has not been removed.
  \<open>closed_under\<close>: every action whose cell lost its entry is pending or has been
  reverted; \<open>reverted\<close>: the origin of the action is a city tile or has lost its entry.
\<close>

definition closed_under :: "Game \<Rightarrow> MoveAction list \<Rightarrow> MoveAction list \<Rightarrow> Position set \<Rightarrow> bool" where
  "closed_under g acts pend K \<longleftrightarrow>
     (\<forall>a \<in> set acts. newcell a \<notin> K \<longrightarrow>
        a \<in> set pend \<or> cityCell g (origin g a) \<or> origin g a \<notin> K)"

definition reverted :: "Game \<Rightarrow> MoveAction list \<Rightarrow> Position set \<Rightarrow> bool" where
  "reverted g pend K \<longleftrightarrow> (\<forall>a \<in> set pend. cityCell g (origin g a) \<or> origin g a \<notin> K)"

section \<open>Example states\<close>

definition emptyCell :: Cell where
  "emptyCell = \<lparr>resource = None, citytile = None, units = [], road = 0\<rparr>"

definition zeroStats :: TeamStats where
  "zeroStats = \<lparr>fuelGenerated = 0, resourcesCollected = (\<lambda>r. 0), cityTilesBuilt = 0,
     stat_workersBuilt = 0, stat_cartsBuilt = 0, roadsBuilt = 0, roadsPillaged = 0\<rparr>"

definition initialTeamState :: TeamState where
  "initialTeamState = \<lparr>researchPoints = 0, team_units = [], researched = (\<lambda>r. r = WOOD)\<rparr>"

definition exampleParameters :: Parameters where
  "exampleParameters = \<lparr>CITY_WOOD_COST = 100,
     WORKER_COLLECTION_RATE = (\<lambda>r. case r of WOOD \<Rightarrow> 20 | COAL \<Rightarrow> 5 | URANIUM \<Rightarrow> 2),
     MIN_ROAD = 0\<rparr>"

definition exampleUnit :: "string \<Rightarrow> TEAM \<Rightarrow> UnitType \<Rightarrow> Position \<Rightarrow> real \<Rightarrow> Unit" where
  "exampleUnit k team ty p space = \<lparr>unit_id = k, unit_team = team, unit_type = ty, unit_pos = p,
     unit_cooldown = 0, cargo = \<lparr>wood = 0, coal = 0, uranium = 0\<rparr>, capacity = space\<rparr>"

text \<open>A game as its constructor leaves it, on a map of empty cells.\<close>

definition newGame :: "int \<Rightarrow> int \<Rightarrow> Game" where
  "newGame w h = \<lparr>gmap = \<lparr>width = w, height = h, cells = (\<lambda>p. emptyCell)\<rparr>,
     globalCityIDCount = 0, globalUnitIDCount = 0, cities = [],
     teamStats = (\<lambda>t. zeroStats), turn = 0, teamStates = (\<lambda>t. initialTeamState),
     parameters = exampleParameters, heap = (\<lambda>a. exampleUnit [] A WORKER (0, 0) 100)\<rparr>"

text \<open>
  Team A owns the city \<open>c_1\<close> with the two tiles (0,0) and (1,0), and one worker, \<open>u_1\<close>,
  standing on (0,0).
\<close>

definition capGame :: Game where
  "capGame =
     (let tile = \<lparr>tile_team = A, cityid = ''c_1'', tile_cooldown = 0, adjacentCityTiles = 1\<rparr>;
          g = newGame 2 1
      in g\<lparr>gmap := (gmap g)\<lparr>cells := (\<lambda>p.
               if p = (0, 0) then emptyCell\<lparr>citytile := Some tile, units := [(''u_1'', 0)]\<rparr>
               else if p = (1, 0) then emptyCell\<lparr>citytile := Some tile\<rparr>
               else emptyCell)\<rparr>,
           globalCityIDCount := 1, globalUnitIDCount := 1,
           cities := [(''c_1'', \<lparr>city_team = A, fuel = 0, citycells = [(0, 0), (1, 0)]\<rparr>)],
           teamStates := (\<lambda>t. if t = A then initialTeamState\<lparr>team_units := [(''u_1'', 0)]\<rparr>
                              else initialTeamState),
           heap := (\<lambda>a. exampleUnit ''u_1'' A WORKER (0, 0) 100)\<rparr>)"


text \<open>
  Three units on a map of 3 by 2 cells without city tiles: \<open>u_1\<close> of team A on (0,0),
  \<open>u_2\<close> of team B on (2,0) and \<open>u_3\<close> of team A on (0,1), below \<open>u_1\<close>.
\<close>

definition moveTo :: "TEAM \<Rightarrow> string \<Rightarrow> DIRECTIONS \<Rightarrow> Position \<Rightarrow> MoveAction" where
  "moveTo team k dir p = \<lparr>move_team = team, move_unitid = k, direction = dir, newcell = p\<rparr>"

definition rowGame :: Game where
  "rowGame =
     (let g = newGame 3 2
      in g\<lparr>gmap := (gmap g)\<lparr>cells := (\<lambda>p.
               if p = (0, 0) then emptyCell\<lparr>units := [(''u_1'', 1)]\<rparr>
               else if p = (2, 0) then emptyCell\<lparr>units := [(''u_2'', 2)]\<rparr>
               else if p = (0, 1) then emptyCell\<lparr>units := [(''u_3'', 3)]\<rparr>
               else emptyCell)\<rparr>,
           globalUnitIDCount := 3,
           teamStates := (\<lambda>t. if t = A
              then initialTeamState\<lparr>team_units := [(''u_1'', 1), (''u_3'', 3)]\<rparr>
              else initialTeamState\<lparr>team_units := [(''u_2'', 2)]\<rparr>),
           heap := (\<lambda>a. if a = 1 then exampleUnit ''u_1'' A WORKER (0, 0) 100
                        else if a = 2 then exampleUnit ''u_2'' B WORKER (2, 0) 100
                        else exampleUnit ''u_3'' A WORKER (0, 1) 100)\<rparr>)"

text \<open>
  A map of 2 by 1 cells: \<open>u_1\<close> of team A on (0,0), and on (1,0) a city tile of the city
  \<open>c_1\<close> of team A with the units \<open>u_2\<close> and \<open>u_3\<close> of team A on it.
\<close>

definition stackedGame :: Game where
  "stackedGame =
     (let tile = \<lparr>tile_team = A, cityid = ''c_1'', tile_cooldown = 0, adjacentCityTiles = 0\<rparr>;
          g = newGame 2 1
      in g\<lparr>gmap := (gmap g)\<lparr>cells := (\<lambda>p.
               if p = (0, 0) then emptyCell\<lparr>units := [(''u_1'', 1)]\<rparr>
               else if p = (1, 0)
                 then emptyCell\<lparr>citytile := Some tile, units := [(''u_2'', 2), (''u_3'', 3)]\<rparr>
               else emptyCell)\<rparr>,
           globalCityIDCount := 1, globalUnitIDCount := 3,
           cities := [(''c_1'', \<lparr>city_team = A, fuel = 0, citycells = [(1, 0)]\<rparr>)],
           teamStates := (\<lambda>t. if t = A
              then initialTeamState\<lparr>team_units := [(''u_1'', 1), (''u_2'', 2), (''u_3'', 3)]\<rparr>
              else initialTeamState),
           heap := (\<lambda>a. if a = 1 then exampleUnit ''u_1'' A WORKER (0, 0) 100
                        else if a = 2 then exampleUnit ''u_2'' A WORKER (1, 0) 100
                        else exampleUnit ''u_3'' A WORKER (1, 0) 100)\<rparr>)"

section \<open>Properties of command validation\<close>

lemmas validation_simps = throw_def accept_def placeAction_def Let_def

lemma validate_pillage_frame:
  "validate_pillage g team args accs = (r, g', accs') \<Longrightarrow>
     g' = g \<and> (\<forall>t. t \<noteq> team \<longrightarrow> accs' t = accs t) \<and> (isl r \<longrightarrow> accs' = accs) \<and> r \<noteq> Inr None"
  by (auto simp: validate_pillage_def validation_simps split: if_splits option.splits)

lemma validate_build_city_frame:
  "validate_build_city g team args accs = (r, g', accs') \<Longrightarrow>
     g' = g \<and> (\<forall>t. t \<noteq> team \<longrightarrow> accs' t = accs t) \<and> (isl r \<longrightarrow> accs' = accs) \<and> r \<noteq> Inr None"
  by (auto simp: validate_build_city_def validation_simps split: if_splits option.splits)

lemma validate_build_unit_frame:
  "validate_build_unit parseInt c g team args accs = (r, g', accs') \<Longrightarrow>
     g' = g \<and> (\<forall>t. t \<noteq> team \<longrightarrow> accs' t = accs t) \<and> (isl r \<longrightarrow> accs' = accs) \<and> r \<noteq> Inr None"
  by (auto simp: validate_build_unit_def validation_simps
      split: if_splits option.splits Number.splits)

lemma validate_move_frame:
  "validate_move g team args accs = (r, g', accs') \<Longrightarrow>
     g' = g \<and> (\<forall>t. t \<noteq> team \<longrightarrow> accs' t = accs t) \<and> (isl r \<longrightarrow> accs' = accs) \<and> r \<noteq> Inr None"
  by (auto simp: validate_move_def validation_simps split: if_splits option.splits)

lemma validate_research_frame:
  "validate_research parseInt g team args accs = (r, g', accs') \<Longrightarrow>
     g' = g \<and> (\<forall>t. t \<noteq> team \<longrightarrow> accs' t = accs t) \<and> (isl r \<longrightarrow> accs' = accs) \<and> r \<noteq> Inr None"
  by (auto simp: validate_research_def validation_simps
      split: if_splits option.splits Number.splits)

lemma validate_transfer_frame:
  "validate_transfer parseInt g team args accs = (r, g', accs') \<Longrightarrow>
     g' = g \<and> (\<forall>t. t \<noteq> team \<longrightarrow> accs' t = accs t) \<and> (isl r \<longrightarrow> accs' = accs) \<and> r \<noteq> Inr None"
  by (auto simp: validate_transfer_def validation_simps split: if_splits option.splits)

lemmas validate_frames = validate_pillage_frame validate_build_city_frame
  validate_build_unit_frame validate_move_frame validate_research_frame validate_transfer_frame

lemma validateCommand_cases:
  assumes "split_sp (command cmd) = action # args"
  shows "validateCommand parseInt g cmd accs =
     (if action \<in> set debug_verbs then (Inr None, g, accs)
      else if action = ''p'' then validate_pillage g (agentID cmd) args accs
      else if action = ''bcity'' then validate_build_city g (agentID cmd) args accs
      else if action = ''bc'' then validate_build_unit parseInt True g (agentID cmd) args accs
      else if action = ''bw'' then validate_build_unit parseInt False g (agentID cmd) args accs
      else if action = ''m'' then validate_move g (agentID cmd) args accs
      else if action = ''r'' then validate_research parseInt g (agentID cmd) args accs
      else if action = ''t'' then validate_transfer parseInt g (agentID cmd) args accs
      else (Inl MalformedCommand, g, accs))"
  using assms by (simp add: validateCommand_def throw_def accept_def)

lemma split_sp_not_Nil: "split_sp s \<noteq> []"
  by (induction s) (auto split: list.splits)

lemma validateCommand_frame_aux:
  assumes "validateCommand parseInt g cmd accs = (r, g', accs')"
  shows "g' = g \<and> (\<forall>t. t \<noteq> agentID cmd \<longrightarrow> accs' t = accs t) \<and> (isl r \<longrightarrow> accs' = accs)"
proof -
  obtain action args where sp: "split_sp (command cmd) = action # args"
    using split_sp_not_Nil [of "command cmd"] by (cases "split_sp (command cmd)") auto
  show ?thesis
    using assms unfolding validateCommand_cases [OF sp]
    by (auto split: if_splits dest: validate_frames)
qed

text \<open>
  C8. Validating a command changes nothing of the game (map, resources, units, cities,
  team states, statistics, id counters), and nothing of the accumulator of the other
  team; when the command is refused, the accumulator is left as it was.
\<close>

theorem validateCommand_frame:
  assumes "validateCommand parseInt g cmd accs = (r, g', accs')"
  shows "g' = g \<and> (\<forall>t. t \<noteq> agentID cmd \<longrightarrow> accs' t = accs t) \<and> (isl r \<longrightarrow> accs' = accs)"
  using assms by (rule validateCommand_frame_aux)

lemmas game_defs = capGame_def newGame_def emptyCell_def initialTeamState_def exampleUnit_def
  exampleParameters_def zeroStats_def genInitialAccumulatedActionStats_def

theorem validateCommand_frame_witness:
  "fst (validateCommand (\<lambda>s. NaN) capGame \<lparr>agentID = A, command = ''p u_1''\<rparr>
          (placeAction A ''u_1'' genInitialAccumulatedActionStats)) = Inl ExtraUnitCommand \<and>
   fst (snd (validateCommand (\<lambda>s. NaN) capGame \<lparr>agentID = A, command = ''p u_1''\<rparr>
          (placeAction A ''u_1'' genInitialAccumulatedActionStats))) = capGame \<and>
   snd (snd (validateCommand (\<lambda>s. NaN) capGame \<lparr>agentID = A, command = ''p u_1''\<rparr>
          (placeAction A ''u_1'' genInitialAccumulatedActionStats))) =
     placeAction A ''u_1'' genInitialAccumulatedActionStats"
proof -
  let ?v = "validateCommand (\<lambda>s. NaN) capGame \<lparr>agentID = A, command = ''p u_1''\<rparr>
          (placeAction A ''u_1'' genInitialAccumulatedActionStats)"
  have r: "fst ?v = Inl ExtraUnitCommand"
    by code_simp
  have "?v = (fst ?v, fst (snd ?v), snd (snd ?v))"
    by simp
  from validateCommand_frame [OF this] r show ?thesis
    by simp
qed

text \<open>
  C9. A command whose verb is a debug annotation (\<open>dc\<close>, \<open>dx\<close>, \<open>dl\<close>, \<open>dt\<close>, \<open>dst\<close>) is
  accepted whatever its other tokens are, yields no action and leaves the accumulator
  untouched; an accepted command with any other verb yields an action.
\<close>

theorem debug_annotation_accepted:
  assumes "split_sp (command cmd) = action # args"
  shows "(action \<in> set debug_verbs \<longrightarrow>
            validateCommand parseInt g cmd accs = (Inr None, g, accs)) \<and>
         (action \<notin> set debug_verbs \<longrightarrow> fst (validateCommand parseInt g cmd accs) \<noteq> Inr None)"
proof (intro conjI impI)
  assume "action \<in> set debug_verbs"
  then show "validateCommand parseInt g cmd accs = (Inr None, g, accs)"
    by (simp add: validateCommand_cases [OF assms])
next
  assume n: "action \<notin> set debug_verbs"
  obtain r g' accs' where v: "validateCommand parseInt g cmd accs = (r, g', accs')"
    by (cases "validateCommand parseInt g cmd accs") auto
  from v n have "r \<noteq> Inr None"
    unfolding validateCommand_cases [OF assms]
    by (auto split: if_splits dest: validate_frames)
  with v show "fst (validateCommand parseInt g cmd accs) \<noteq> Inr None"
    by simp
qed

theorem debug_annotation_accepted_witness:
  "split_sp ''dst  power low'' = ''dst'' # [[], ''power'', ''low''] \<and>
   ''dst'' \<in> set debug_verbs \<and>
   validateCommand (\<lambda>s. NaN) capGame \<lparr>agentID = B, command = ''dst  power low''\<rparr>
     genInitialAccumulatedActionStats = (Inr None, capGame, genInitialAccumulatedActionStats) \<and>
   split_sp ''m u_1 e'' = ''m'' # [''u_1'', ''e''] \<and> ''m'' \<notin> set debug_verbs \<and>
   fst (validateCommand (\<lambda>s. NaN) capGame \<lparr>agentID = A, command = ''m u_1 e''\<rparr>
     genInitialAccumulatedActionStats) \<noteq> Inr None"
proof -
  have s1: "split_sp (command \<lparr>agentID = B, command = ''dst  power low''\<rparr>) =
      ''dst'' # [[], ''power'', ''low'']"
    by simp
  have s2: "split_sp (command \<lparr>agentID = A, command = ''m u_1 e''\<rparr>) = ''m'' # [''u_1'', ''e'']"
    by simp
  have d1: "''dst'' \<in> set debug_verbs" and d2: "''m'' \<notin> set debug_verbs"
    by (simp_all add: debug_verbs_def)
  from debug_annotation_accepted [OF s1, of "\<lambda>s. NaN" capGame genInitialAccumulatedActionStats]
    debug_annotation_accepted [OF s2, of "\<lambda>s. NaN" capGame genInitialAccumulatedActionStats]
    s1 s2 d1 d2
  show ?thesis by simp
qed

lemma city_tiles_fold:
  "fold (\<lambda>(k, city) n. if city_team city = team then n + length (citycells city) else n) cs n0 =
   n0 + sum_list (map (\<lambda>(k, city). if city_team city = team then length (citycells city) else 0) cs)"
  by (induction cs arbitrary: n0) (auto split: prod.splits)

text \<open>
  Both cap functions of the source compare all the live units of the team, plus the
  offset they are given, with the city tiles of the team.
\<close>

lemma workerUnitCapReached_iff:
  "workerUnitCapReached g team offset \<longleftrightarrow>
     teamCityTilesCount g team \<le> liveUnits g team + offset"
  by (simp add: workerUnitCapReached_def teamCityTilesCount_def liveUnits_def city_tiles_fold)

lemma cartUnitCapReached_iff:
  "cartUnitCapReached g team offset \<longleftrightarrow>
     teamCityTilesCount g team \<le> liveUnits g team + offset"
  by (simp add: cartUnitCapReached_def teamCityTilesCount_def liveUnits_def city_tiles_fold)

lemma capGame_counts: "liveUnits capGame A = 1 \<and> teamCityTilesCount capGame A = 2"
  by (simp add: liveUnits_def teamCityTilesCount_def capGame_def newGame_def map_size_def
      initialTeamState_def Let_def)

text \<open>
  C1. By the specification worker and cart builds draw from one pool: a build is
  refused once the live units and all the pending builds of the team reach its city
  tiles. The source passes to each cap function the builds of its own kind only. In \<open>capGame\<close> team A has two city
  tiles and one live unit: \<open>bw 0 0\<close> is accepted, and then \<open>bc 1 0\<close>, validated on the
  accumulator the first command left, is accepted too, although the live unit and the
  pending worker already reach the two city tiles. The turn ends with one live unit and
  two pending builds on two city tiles.
\<close>

theorem unit_cap_exceeded:
  assumes "parseInt ''0'' = Finite 0" and "parseInt ''1'' = Finite 1"
  shows "fst (validateCommand parseInt capGame \<lparr>agentID = A, command = ''bw 0 0''\<rparr>
            genInitialAccumulatedActionStats) = Inr (Some (SpawnWorker A 0 0)) \<and>
         fst (validateCommand parseInt capGame \<lparr>agentID = A, command = ''bc 1 0''\<rparr>
            (snd (snd (validateCommand parseInt capGame \<lparr>agentID = A, command = ''bw 0 0''\<rparr>
               genInitialAccumulatedActionStats)))) = Inr (Some (SpawnCart A 1 0)) \<and>
         workersBuilt (snd (snd (validateCommand parseInt capGame
            \<lparr>agentID = A, command = ''bc 1 0''\<rparr>
            (snd (snd (validateCommand parseInt capGame \<lparr>agentID = A, command = ''bw 0 0''\<rparr>
               genInitialAccumulatedActionStats))))) A) = 1 \<and>
         cartsBuilt (snd (snd (validateCommand parseInt capGame
            \<lparr>agentID = A, command = ''bc 1 0''\<rparr>
            (snd (snd (validateCommand parseInt capGame \<lparr>agentID = A, command = ''bw 0 0''\<rparr>
               genInitialAccumulatedActionStats))))) A) = 1 \<and>
         liveUnits capGame A = 1 \<and> teamCityTilesCount capGame A = 2"
proof -
  have t0: "getCell (gmap capGame) (0, 0) = emptyCell\<lparr>citytile := Some \<lparr>tile_team = A,
      cityid = ''c_1'', tile_cooldown = 0, adjacentCityTiles = 1\<rparr>, units := [(''u_1'', 0)]\<rparr>"
    and t1: "getCell (gmap capGame) (1, 0) = emptyCell\<lparr>citytile := Some \<lparr>tile_team = A,
      cityid = ''c_1'', tile_cooldown = 0, adjacentCityTiles = 1\<rparr>\<rparr>"
    and m: "inMap (gmap capGame) (0, 0)" "inMap (gmap capGame) (1, 0)"
    by (simp_all add: capGame_def newGame_def getCell_def inMap_def Let_def)
  have ids: "getTileID \<lparr>tile_team = A, cityid = ''c_1'', tile_cooldown = 0,
      adjacentCityTiles = 1\<rparr> (1, 0) \<noteq> getTileID \<lparr>tile_team = A, cityid = ''c_1'',
      tile_cooldown = 0, adjacentCityTiles = 1\<rparr> (0, 0)"
    by (simp add: getTileID_def show_int_def digits.simps digit_char_def)
  show ?thesis
    using assms capGame_counts t0 t1 m ids
    by (simp add: validateCommand_def validate_build_unit_def debug_verbs_def
        workerUnitCapReached_iff cartUnitCapReached_iff throw_def accept_def Let_def
        placeAction_def genInitialAccumulatedActionStats_def emptyCell_def canBuildUnit_def)
qed

theorem unit_cap_exceeded_witness:
  "fst (validateCommand (\<lambda>s. if s = ''0'' then Finite 0 else if s = ''1'' then Finite 1 else NaN)
          capGame \<lparr>agentID = A, command = ''bc 1 0''\<rparr>
          (snd (snd (validateCommand
             (\<lambda>s. if s = ''0'' then Finite 0 else if s = ''1'' then Finite 1 else NaN)
             capGame \<lparr>agentID = A, command = ''bw 0 0''\<rparr> genInitialAccumulatedActionStats)))) =
     Inr (Some (SpawnCart A 1 0)) \<and>
   liveUnits capGame A = 1 \<and> teamCityTilesCount capGame A = 2"
  using unit_cap_exceeded
    [of "\<lambda>s. if s = ''0'' then Finite 0 else if s = ''1'' then Finite 1 else NaN"]
  by simp

section \<open>Properties of city formation\<close>

section \<open>Adjacency on the grid\<close>

lemma adj_distinct: "distinct (getAdjacentCells m p)"
  by (cases p) (auto simp: getAdjacentCells_def)

lemma adj_irrefl: "p \<notin> set (getAdjacentCells m p)"
  by (cases p) (auto simp: getAdjacentCells_def)

lemma adj_inMap: "inMap m p \<Longrightarrow> q \<in> set (getAdjacentCells m p) \<Longrightarrow> inMap m q"
  by (cases p) (auto simp: getAdjacentCells_def inMap_def split: if_splits)

lemma adj_sym:
  "inMap m p \<Longrightarrow> inMap m q \<Longrightarrow>
   q \<in> set (getAdjacentCells m p) \<longleftrightarrow> p \<in> set (getAdjacentCells m q)"
  by (cases p; cases q) (auto simp: getAdjacentCells_def inMap_def split: if_splits)

lemma adj_dims:
  "width m' = width m \<Longrightarrow> height m' = height m \<Longrightarrow> getAdjacentCells m' = getAdjacentCells m"
  by (rule ext) (simp add: getAdjacentCells_def)

lemma inMap_dims:
  "width m' = width m \<Longrightarrow> height m' = height m \<Longrightarrow> inMap m' = inMap m"
  by (rule ext) (simp add: inMap_def)

section \<open>What the updates do to tiles and registry\<close>

lemma tileAt_update_cell:
  "tileAt (update_cell p f g) q = (if q = p then citytile (f (cells (gmap g) p)) else tileAt g q)"
  by (simp add: tileAt_def update_cell_def getCell_def)

lemma tileAt_update_tile:
  "tileAt (update_tile p f g) q = (if q = p then map_option f (tileAt g p) else tileAt g q)"
  by (simp add: update_tile_def tileAt_update_cell) (simp add: tileAt_def getCell_def)

lemma tileAt_setCityTile:
  "tileAt (setCityTile team cid p g) q =
     (if q = p then Some \<lparr>tile_team = team, cityid = cid, tile_cooldown = 0, adjacentCityTiles = 0\<rparr>
      else tileAt g q)"
  by (simp add: setCityTile_def tileAt_update_cell)

lemma tileAt_addCityTile [simp]: "tileAt (addCityTile cid p g) q = tileAt g q"
  by (simp add: addCityTile_def tileAt_def)

lemma tileAt_cities_update [simp]: "tileAt (g\<lparr>cities := cs\<rparr>) q = tileAt g q"
  by (simp add: tileAt_def)

lemma tileAt_count_update [simp]: "tileAt (g\<lparr>globalCityIDCount := n\<rparr>) q = tileAt g q"
  by (simp add: tileAt_def)

lemma cities_update_cell [simp]: "cities (update_cell p f g) = cities g"
  by (simp add: update_cell_def)

lemma cities_update_tile [simp]: "cities (update_tile p f g) = cities g"
  by (simp add: update_tile_def)

lemma cities_setCityTile [simp]: "cities (setCityTile team cid p g) = cities g"
  by (simp add: setCityTile_def)

lemma cities_addCityTile:
  "cities (addCityTile cid p g) =
     AList.map_entry cid (\<lambda>c. c\<lparr>citycells := citycells c @ [p]\<rparr>) (cities g)"
  by (simp add: addCityTile_def)

lemma dims_simps [simp]:
  "dims (update_cell p f g) = dims g"
  "dims (update_tile p h g) = dims g"
  "dims (setCityTile team cid p g) = dims g"
  "dims (addCityTile cid p g) = dims g"
  "dims (g\<lparr>cities := cs\<rparr>) = dims g"
  "dims (g\<lparr>globalCityIDCount := n\<rparr>) = dims g"
  by (simp_all add: dims_def update_cell_def update_tile_def setCityTile_def addCityTile_def)

lemma count_simps [simp]:
  "globalCityIDCount (update_cell p f g) = globalCityIDCount g"
  "globalCityIDCount (update_tile p h g) = globalCityIDCount g"
  "globalCityIDCount (setCityTile team cid p g) = globalCityIDCount g"
  "globalCityIDCount (addCityTile cid p g) = globalCityIDCount g"
  by (simp_all add: update_cell_def update_tile_def setCityTile_def addCityTile_def)

lemma adj_of_dims: "dims g' = dims g \<Longrightarrow> getAdjacentCells (gmap g') = getAdjacentCells (gmap g)"
  by (rule adj_dims) (simp_all add: dims_def)

lemma inMap_of_dims: "dims g' = dims g \<Longrightarrow> inMap (gmap g') = inMap (gmap g)"
  by (rule inMap_dims) (simp_all add: dims_def)

lemma absorb_cells_absorbed:
  "\<forall>q \<in> set qs. tileAt g q \<noteq> None \<Longrightarrow> absorb_cells cid qs g = Some (absorbed cid qs g)"
proof (induction qs arbitrary: g)
  case Nil
  then show ?case by (simp add: absorbed_def)
next
  case (Cons q qs)
  let ?g1 = "addCityTile cid q (update_tile q (\<lambda>t. t\<lparr>cityid := cid\<rparr>) g)"
  from Cons.prems obtain ct where ct: "tileAt g q = Some ct"
    by auto
  have "\<forall>q' \<in> set qs. tileAt ?g1 q' \<noteq> None"
    using Cons.prems by (auto simp: tileAt_update_tile)
  from Cons.IH [OF this] ct show ?case
    by (simp add: absorbed_def)
qed

lemma absorb_cells_None:
  "\<exists>q \<in> set qs. tileAt g q = None \<Longrightarrow> absorb_cells cid qs g = None"
proof (induction qs arbitrary: g)
  case Nil
  then show ?case by simp
next
  case (Cons q qs)
  show ?case
  proof (cases "tileAt g q")
    case None
    then show ?thesis by simp
  next
    case (Some ct)
    let ?g1 = "addCityTile cid q (update_tile q (\<lambda>t. t\<lparr>cityid := cid\<rparr>) g)"
    from Some Cons.prems obtain q' where "q' \<in> set qs" "tileAt g q' = None"
      by auto
    then have "\<exists>q' \<in> set qs. tileAt ?g1 q' = None"
      by (auto simp: tileAt_update_tile)
    from Cons.IH [OF this] Some show ?thesis by simp
  qed
qed

lemma tileAt_absorbed:
  "tileAt (absorbed cid qs g) q =
     (if q \<in> set qs then map_option (\<lambda>t. t\<lparr>cityid := cid\<rparr>) (tileAt g q) else tileAt g q)"
proof (induction qs arbitrary: g)
  case Nil
  then show ?case by (simp add: absorbed_def)
next
  case (Cons a qs)
  have "absorbed cid (a # qs) g =
      absorbed cid qs (addCityTile cid a (update_tile a (\<lambda>t. t\<lparr>cityid := cid\<rparr>) g))"
    by (simp add: absorbed_def)
  then show ?case
    by (simp add: Cons.IH tileAt_update_tile option.map_comp comp_def)
qed

lemma map_entry_comp:
  "AList.map_entry k f (AList.map_entry k h xs) = AList.map_entry k (f \<circ> h) xs"
  by (induction xs) auto

lemma map_entry_ident: "AList.map_entry k (\<lambda>c. c) xs = xs"
  by (induction xs) auto

lemma cities_absorbed:
  "cities (absorbed cid qs g) =
     AList.map_entry cid (\<lambda>c. c\<lparr>citycells := citycells c @ qs\<rparr>) (cities g)"
proof (induction qs arbitrary: g)
  case Nil
  have "(\<lambda>c::City. c\<lparr>citycells := citycells c\<rparr>) = (\<lambda>c. c)"
    by (rule ext) simp
  then show ?case by (simp add: absorbed_def map_entry_ident)
next
  case (Cons a qs)
  have "absorbed cid (a # qs) g =
      absorbed cid qs (addCityTile cid a (update_tile a (\<lambda>t. t\<lparr>cityid := cid\<rparr>) g))"
    by (simp add: absorbed_def)
  then show ?case
    by (simp add: Cons.IH cities_addCityTile map_entry_comp comp_def)
qed

lemma absorbed_frame [simp]:
  "dims (absorbed cid qs g) = dims g"
  "globalCityIDCount (absorbed cid qs g) = globalCityIDCount g"
  by (induction qs arbitrary: g) (simp_all add: absorbed_def)

lemma registry_ok_tile:
  assumes "registry_ok g" and "tileAt g p = Some ct"
  obtains c where "inMap (gmap g) p" "map_of (cities g) (cityid ct) = Some c"
    "city_team c = tile_team ct" "p \<in> set (citycells c)"
  using assms unfolding registry_ok_def by blast

lemma registry_ok_city:
  assumes "registry_ok g" and "map_of (cities g) k = Some c"
  shows "citycells c \<noteq> []" "distinct (citycells c)"
    "\<And>p. p \<in> set (citycells c) \<Longrightarrow> \<exists>ct. tileAt g p = Some ct \<and> cityid ct = k"
  using assms unfolding registry_ok_def by blast+

lemma registry_ok_distinct: "registry_ok g \<Longrightarrow> distinct (map fst (cities g))"
  by (simp add: registry_ok_def)

lemma registry_ok_cells_iff:
  assumes "registry_ok g" and "map_of (cities g) k = Some c" and "tileAt g p = Some ct"
  shows "p \<in> set (citycells c) \<longleftrightarrow> cityid ct = k"
proof
  assume "p \<in> set (citycells c)"
  from registry_ok_city(3) [OF assms(1,2) this] assms(3) show "cityid ct = k" by simp
next
  assume "cityid ct = k"
  with registry_ok_tile [OF assms(1,3)] assms(2) show "p \<in> set (citycells c)"
    by (metis option.inject)
qed

lemma merge_city_result:
  assumes ok: "registry_ok g"
    and old: "map_of (cities g) k = Some old"
    and neq: "k \<noteq> cid"
  shows "\<exists>g'. merge_city add cid k g = Some g' \<and>
     (\<forall>q. tileAt g' q = map_option (renamed k cid) (tileAt g q)) \<and>
     cities g' = AList.delete k (AList.map_entry cid (absorb_city add old) (cities g)) \<and>
     dims g' = dims g \<and> globalCityIDCount g' = globalCityIDCount g"
proof -
  have tiles: "\<forall>q \<in> set (citycells old). tileAt g q \<noteq> None"
  proof
    fix q assume "q \<in> set (citycells old)"
    from registry_ok_city(3) [OF ok old this] show "tileAt g q \<noteq> None" by auto
  qed
  let ?g1 = "absorbed cid (citycells old) g"
  let ?g' = "?g1\<lparr>cities := AList.delete k
                 (AList.map_entry cid (\<lambda>c. c\<lparr>fuel := add (fuel c) (fuel old)\<rparr>) (cities ?g1))\<rparr>"
  have m: "merge_city add cid k g = Some ?g'"
    using neq old absorb_cells_absorbed [OF tiles, of cid] by (simp add: merge_city_def)
  have t: "tileAt ?g' q = map_option (renamed k cid) (tileAt g q)" for q
  proof (cases "tileAt g q")
    case None
    then show ?thesis by (simp add: tileAt_absorbed)
  next
    case (Some ct)
    from registry_ok_cells_iff [OF ok old Some] Some show ?thesis
      by (simp add: tileAt_absorbed renamed_def)
  qed
  have "(\<lambda>c. c\<lparr>fuel := add (fuel c) (fuel old)\<rparr>) \<circ> (\<lambda>c. c\<lparr>citycells := citycells c @ citycells old\<rparr>) =
      absorb_city add old"
    by (rule ext) (simp add: absorb_city_def)
  then have c: "cities ?g' = AList.delete k (AList.map_entry cid (absorb_city add old) (cities g))"
    by (simp add: cities_absorbed map_entry_comp)
  have "dims ?g' = dims g \<and> globalCityIDCount ?g' = globalCityIDCount g"
    by simp
  with m t c show ?thesis by blast
qed

lemma map_of_merged:
  "map_of (AList.delete k (AList.map_entry cid f cs)) =
     (\<lambda>j. if j = k then None
          else if j = cid then map_option f (map_of cs cid) else map_of cs j)"
  by (rule ext) (auto simp: delete_conv map_of_map_entry split: option.splits)

lemma merge_city_registry_ok:
  assumes ok: "registry_ok g"
    and c0: "map_of (cities g) cid = Some c0"
    and old: "map_of (cities g) k = Some old"
    and team: "city_team old = city_team c0"
    and neq: "k \<noteq> cid"
    and t': "\<forall>q. tileAt g' q = map_option (renamed k cid) (tileAt g q)"
    and c': "cities g' = AList.delete k (AList.map_entry cid (absorb_city add old) (cities g))"
    and d': "dims g' = dims g"
  shows "registry_ok g'"
proof -
  have m: "map_of (cities g') =
      (\<lambda>j. if j = k then None else if j = cid then Some (absorb_city add old c0)
            else map_of (cities g) j)"
    unfolding c' map_of_merged by (rule ext) (simp add: c0)
  have inmap: "inMap (gmap g') = inMap (gmap g)"
    by (rule inMap_of_dims [OF d'])
  have 1: "distinct (map fst (cities g'))"
    using registry_ok_distinct [OF ok] by (simp add: c' distinct_delete distinct_map_entry)
  have 2: "inMap (gmap g') p \<and>
        (\<exists>c. map_of (cities g') (cityid ct') = Some c \<and> city_team c = tile_team ct' \<and>
           p \<in> set (citycells c))"
    if tile: "tileAt g' p = Some ct'" for p ct'
  proof -
    from tile t' [rule_format, of p] obtain ct where ct: "tileAt g p = Some ct"
      and ct': "ct' = renamed k cid ct"
      by auto
    from registry_ok_tile [OF ok ct] obtain c where c: "inMap (gmap g) p"
        "map_of (cities g) (cityid ct) = Some c" "city_team c = tile_team ct"
        "p \<in> set (citycells c)"
      by blast
    show ?thesis
    proof (cases "cityid ct = k")
      case True
      with c old have "c = old" by simp
      with c True team neq neq [symmetric] show ?thesis
        by (simp add: inmap m ct' renamed_def absorb_city_def)
    next
      case False
      show ?thesis
      proof (cases "cityid ct = cid")
        case True
        with c c0 have "c = c0" by simp
        with c True False show ?thesis
          by (simp add: inmap m ct' renamed_def absorb_city_def)
      next
        case notcid: False
        with c False show ?thesis
          by (simp add: inmap m ct' renamed_def)
      qed
    qed
  qed
  have 3: "citycells c \<noteq> [] \<and> distinct (citycells c) \<and>
        (\<forall>p \<in> set (citycells c). \<exists>ct. tileAt g' p = Some ct \<and> cityid ct = j)"
    if city: "map_of (cities g') j = Some c" for j c
  proof -
    from city m have jk: "j \<noteq> k"
      by (auto split: if_splits)
    show ?thesis
    proof (cases "j = cid")
      case True
      with city m jk have c: "c = absorb_city add old c0" by simp
      have disj: "set (citycells c0) \<inter> set (citycells old) = {}"
      proof (rule ccontr)
        assume "set (citycells c0) \<inter> set (citycells old) \<noteq> {}"
        then obtain p where "p \<in> set (citycells c0)" "p \<in> set (citycells old)" by auto
        with registry_ok_city(3) [OF ok c0] registry_ok_city(3) [OF ok old] neq
        show False by fastforce
      qed
      have tiles: "\<exists>ct. tileAt g' p = Some ct \<and> cityid ct = cid"
        if "p \<in> set (citycells c0) \<union> set (citycells old)" for p
      proof -
        from that registry_ok_city(3) [OF ok c0] registry_ok_city(3) [OF ok old]
        obtain ct where "tileAt g p = Some ct" "cityid ct = cid \<or> cityid ct = k"
          by blast
        then show ?thesis
          using t' [rule_format, of p] by (auto simp: renamed_def)
      qed
      from registry_ok_city(1,2) [OF ok c0] registry_ok_city(2) [OF ok old] disj tiles
      show ?thesis
        by (simp add: c absorb_city_def True)
    next
      case False
      with city m jk have c: "map_of (cities g) j = Some c" by simp
      have "\<exists>ct. tileAt g' p = Some ct \<and> cityid ct = j" if "p \<in> set (citycells c)" for p
      proof -
        from registry_ok_city(3) [OF ok c that] obtain ct where
          "tileAt g p = Some ct" "cityid ct = j" by blast
        with jk show ?thesis
          using t' [rule_format, of p] by (auto simp: renamed_def)
      qed
      with registry_ok_city(1,2) [OF ok c] show ?thesis by simp
    qed
  qed
  from 1 2 3 show ?thesis
    unfolding registry_ok_def by blast
qed

lemma renamed_all_Cons: "renamed_all ks cid (renamed k cid t) = renamed_all (k # ks) cid t"
  by (simp add: renamed_all_def renamed_def)

lemma renamed_same: "renamed cid cid t = t"
  by (simp add: renamed_def)

lemma merged_Cons: "merged add (absorb_city add old c) olds = merged add c (old # olds)"
  by (simp add: merged_def absorb_city_def)

lemma merge_cities_result:
  assumes "registry_ok g"
    and "map_of (cities g) cid = Some c0"
    and "distinct ks"
    and "\<forall>k \<in> set ks. k \<noteq> cid \<longrightarrow>
           (\<exists>old. map_of (cities g) k = Some old \<and> city_team old = city_team c0)"
  shows "\<exists>g'. merge_cities add cid ks g = Some g' \<and> registry_ok g' \<and>
     (\<forall>q. tileAt g' q = map_option (renamed_all ks cid) (tileAt g q)) \<and>
     map_of (cities g') =
       (\<lambda>j. if j = cid then Some (merged add c0 (map (cityOf g) (filter (\<lambda>k. k \<noteq> cid) ks)))
            else if j \<in> set ks then None else map_of (cities g) j) \<and>
     dims g' = dims g \<and> globalCityIDCount g' = globalCityIDCount g"
  using assms
proof (induction ks arbitrary: g c0)
  case Nil
  have "merged add c0 [] = c0"
    by (simp add: merged_def)
  moreover have "renamed_all [] cid = (\<lambda>t. t)"
    by (rule ext) (simp add: renamed_all_def)
  ultimately show ?case
    using Nil.prems by (auto simp: option.map_ident)
next
  case (Cons k ks)
  show ?case
  proof (cases "k = cid")
    case True
    have m: "merge_city add cid k g = Some g"
      by (simp add: merge_city_def True)
    have pre: "\<forall>k \<in> set ks. k \<noteq> cid \<longrightarrow>
           (\<exists>old. map_of (cities g) k = Some old \<and> city_team old = city_team c0)"
      using Cons.prems(4) by simp
    from Cons.IH [OF Cons.prems(1,2) _ pre] Cons.prems(3)
    obtain g' where g': "merge_cities add cid ks g = Some g'" "registry_ok g'"
      "\<forall>q. tileAt g' q = map_option (renamed_all ks cid) (tileAt g q)"
      "map_of (cities g') =
       (\<lambda>j. if j = cid then Some (merged add c0 (map (cityOf g) (filter (\<lambda>k. k \<noteq> cid) ks)))
            else if j \<in> set ks then None else map_of (cities g) j)"
      "dims g' = dims g" "globalCityIDCount g' = globalCityIDCount g"
      by auto
    have r: "renamed_all (k # ks) cid = renamed_all ks cid"
      by (rule ext) (auto simp: renamed_all_def True)
    have "map_of (cities g') =
       (\<lambda>j. if j = cid then Some (merged add c0 (map (cityOf g) (filter (\<lambda>k. k \<noteq> cid) (k # ks))))
            else if j \<in> set (k # ks) then None else map_of (cities g) j)"
      unfolding g'(4) by (rule ext) (simp add: True)
    with g' m r show ?thesis
      by simp
  next
    case False
    from Cons.prems(4) False obtain old where old: "map_of (cities g) k = Some old"
      "city_team old = city_team c0"
      by auto
    from merge_city_result [OF Cons.prems(1) old(1) False]
    obtain g1 where g1: "merge_city add cid k g = Some g1"
      "\<forall>q. tileAt g1 q = map_option (renamed k cid) (tileAt g q)"
      "cities g1 = AList.delete k (AList.map_entry cid (absorb_city add old) (cities g))"
      "dims g1 = dims g" "globalCityIDCount g1 = globalCityIDCount g"
      by blast
    have ok1: "registry_ok g1"
      by (rule merge_city_registry_ok [OF Cons.prems(1,2) old False g1(2,3,4)])
    have m1: "map_of (cities g1) =
      (\<lambda>j. if j = k then None else if j = cid then Some (absorb_city add old c0)
            else map_of (cities g) j)"
      unfolding g1(3) map_of_merged by (rule ext) (simp add: Cons.prems(2))
    have c1: "map_of (cities g1) cid = Some (absorb_city add old c0)"
      using False by (simp add: m1)
    have d: "distinct ks" and kn: "k \<notin> set ks"
      using Cons.prems(3) by simp_all
    have pre: "\<forall>j \<in> set ks. j \<noteq> cid \<longrightarrow>
           (\<exists>o'. map_of (cities g1) j = Some o' \<and>
              city_team o' = city_team (absorb_city add old c0))"
      using Cons.prems(4) kn by (auto simp: m1 absorb_city_def)
    from Cons.IH [OF ok1 c1 d pre]
    obtain g' where g': "merge_cities add cid ks g1 = Some g'" "registry_ok g'"
      "\<forall>q. tileAt g' q = map_option (renamed_all ks cid) (tileAt g1 q)"
      "map_of (cities g') =
       (\<lambda>j. if j = cid
            then Some (merged add (absorb_city add old c0) (map (cityOf g1) (filter (\<lambda>k. k \<noteq> cid) ks)))
            else if j \<in> set ks then None else map_of (cities g1) j)"
      "dims g' = dims g1" "globalCityIDCount g' = globalCityIDCount g1"
      by blast
    have same: "map (cityOf g1) (filter (\<lambda>k. k \<noteq> cid) ks) =
        map (cityOf g) (filter (\<lambda>k. k \<noteq> cid) ks)"
      using kn by (auto simp: cityOf_def m1)
    have ko: "cityOf g k = old"
      by (simp add: cityOf_def old)
    have t: "\<forall>q. tileAt g' q = map_option (renamed_all (k # ks) cid) (tileAt g q)"
      by (simp add: g'(3) g1(2) option.map_comp comp_def renamed_all_Cons)
    have c: "map_of (cities g') =
       (\<lambda>j. if j = cid then Some (merged add c0 (map (cityOf g) (filter (\<lambda>k. k \<noteq> cid) (k # ks))))
            else if j \<in> set (k # ks) then None else map_of (cities g) j)"
      unfolding g'(4) by (rule ext) (simp add: same merged_Cons False ko m1)
    from g1(1) g'(1,2) t c g'(5,6) g1(4,5) show ?thesis
      by simp
  qed
qed

lemma fold_update_tile:
  "distinct qs \<Longrightarrow>
   tileAt (fold (\<lambda>q. update_tile q f) qs g) q =
     (if q \<in> set qs then map_option f (tileAt g q) else tileAt g q)"
proof (induction qs arbitrary: g)
  case Nil
  then show ?case by simp
next
  case (Cons a qs)
  from Cons.prems have d: "distinct qs" and a: "a \<notin> set qs"
    by simp_all
  have "tileAt (fold (\<lambda>q. update_tile q f) (a # qs) g) q =
      (if q \<in> set qs then map_option f (tileAt (update_tile a f g) q)
       else tileAt (update_tile a f g) q)"
    using Cons.IH [OF d, of "update_tile a f g"] by simp
  also have "\<dots> = (if q \<in> set (a # qs) then map_option f (tileAt g q) else tileAt g q)"
  proof (cases "q = a")
    case True
    with a show ?thesis by (simp add: tileAt_update_tile)
  next
    case False
    then show ?thesis by (simp add: tileAt_update_tile)
  qed
  finally show ?case .
qed

lemma fold_update_tile_frame [simp]:
  "cities (fold (\<lambda>q. update_tile q f) qs g) = cities g"
  "dims (fold (\<lambda>q. update_tile q f) qs g) = dims g"
  "globalCityIDCount (fold (\<lambda>q. update_tile q f) qs g) = globalCityIDCount g"
  by (induction qs arbitrary: g) simp_all

lemma isTeamTile_iff: "isTeamTile g team q \<longleftrightarrow> map_option tile_team (tileAt g q) = Some team"
  by (cases "tileAt g q") (simp_all add: isTeamTile_def)

lemma adjSame_cong:
  assumes "dims g' = dims g"
    and "\<forall>q. map_option tile_team (tileAt g' q) = map_option tile_team (tileAt g q)"
  shows "adjSameTeamCityTiles g' team p = adjSameTeamCityTiles g team p"
proof -
  have "isTeamTile g' team = isTeamTile g team"
    by (rule ext) (simp add: isTeamTile_iff assms(2) [rule_format])
  then show ?thesis
    by (simp add: adjSameTeamCityTiles_def adj_of_dims [OF assms(1)])
qed

lemma adjSame_distinct: "distinct (adjSameTeamCityTiles g team p)"
  by (simp add: adjSameTeamCityTiles_def adj_distinct)

lemma adjSame_iff:
  "q \<in> set (adjSameTeamCityTiles g team p) \<longleftrightarrow>
     q \<in> set (getAdjacentCells (gmap g) p) \<and> (\<exists>ct. tileAt g q = Some ct \<and> tile_team ct = team)"
  by (cases "tileAt g q") (auto simp: adjSameTeamCityTiles_def isTeamTile_def)

lemma set_of_list_simps [simp]:
  "set (set_of_list xs) = set xs" "distinct (set_of_list xs)"
  by (simp_all add: set_of_list_def)

lemma spawnCityTile_attach:
  assumes "inMap (gmap g) p" and "adjSameTeamCityTiles g team p \<noteq> []"
    and "map_of (cities g) (firstCityId g team p) = Some c0"
  shows "spawnCityTile add g team p arg =
     merge_cities add (firstCityId g team p) (cityIdsFound g team p) (attached team p g)"
  using assms by (simp add: spawnCityTile_def attached_def firstCityId_def Let_def)

lemma spawnCityTile_unregistered:
  assumes "adjSameTeamCityTiles g team p \<noteq> []"
    and "map_of (cities g) (firstCityId g team p) = None"
  shows "spawnCityTile add g team p arg = None"
  using assms by (simp add: spawnCityTile_def firstCityId_def Let_def)

lemma spawnCityTile_inMap: "spawnCityTile add g team p arg = Some g' \<Longrightarrow> inMap (gmap g) p"
  by (simp add: spawnCityTile_def Let_def split: if_splits)

lemma tileAt_attached:
  "tileAt (attached team p g) q =
     (if q = p then Some \<lparr>tile_team = team, cityid = firstCityId g team p, tile_cooldown = 0,
         adjacentCityTiles = length (adjSameTeamCityTiles g team p)\<rparr>
      else if q \<in> set (adjSameTeamCityTiles g team p)
        then map_option (\<lambda>t. t\<lparr>adjacentCityTiles := adjacentCityTiles t + 1\<rparr>) (tileAt g q)
      else tileAt g q)"
proof -
  have "p \<notin> set (adjSameTeamCityTiles g team p)"
    using adj_irrefl [of p "gmap g"] by (simp add: adjSameTeamCityTiles_def)
  then show ?thesis
    by (simp add: attached_def Let_def fold_update_tile [OF adjSame_distinct]
        tileAt_update_tile tileAt_setCityTile firstCityId_def)
qed

lemma cities_attached:
  "cities (attached team p g) =
     AList.map_entry (firstCityId g team p) (\<lambda>c. c\<lparr>citycells := citycells c @ [p]\<rparr>) (cities g)"
  by (simp add: attached_def Let_def cities_addCityTile firstCityId_def)

lemma attached_frame [simp]:
  "dims (attached team p g) = dims g"
  "globalCityIDCount (attached team p g) = globalCityIDCount g"
  by (simp_all add: attached_def Let_def)

lemma map_entry_absent: "k \<notin> fst ` set xs \<Longrightarrow> AList.map_entry k f xs = xs"
  by (induction xs) auto

lemma attached_registry_ok:
  assumes ok: "registry_ok g"
    and p: "inMap (gmap g) p"
    and none: "tileAt g p = None"
    and c0: "map_of (cities g) (firstCityId g team p) = Some c0"
    and team: "city_team c0 = team"
  shows "registry_ok (attached team p g)"
proof -
  let ?cid = "firstCityId g team p"
  let ?g' = "attached team p g"
  let ?c0' = "c0\<lparr>citycells := citycells c0 @ [p]\<rparr>"
  have m: "map_of (cities ?g') = (map_of (cities g))(?cid \<mapsto> ?c0')"
    by (rule ext) (simp add: cities_attached map_of_map_entry c0)
  have inmap: "inMap (gmap ?g') = inMap (gmap g)"
    by (rule inMap_of_dims) simp
  have tile_old: "\<exists>ct. tileAt g q = Some ct \<and> cityid ct' = cityid ct \<and> tile_team ct' = tile_team ct"
    if "tileAt ?g' q = Some ct'" "q \<noteq> p" for q ct'
    using that by (auto simp: tileAt_attached split: if_splits)
  have tile_new: "\<exists>ct'. tileAt ?g' q = Some ct' \<and> cityid ct' = cityid ct"
    if "tileAt g q = Some ct" for q ct
  proof -
    from that none have "q \<noteq> p" by auto
    with that show ?thesis by (simp add: tileAt_attached)
  qed
  have pnot: "p \<notin> set (citycells c)" if "map_of (cities g) j = Some c" for j c
    using registry_ok_city(3) [OF ok that, of p] none by auto
  have 1: "distinct (map fst (cities ?g'))"
    using registry_ok_distinct [OF ok] by (simp add: cities_attached distinct_map_entry)
  have 2: "inMap (gmap ?g') q \<and>
        (\<exists>c. map_of (cities ?g') (cityid ct') = Some c \<and> city_team c = tile_team ct' \<and>
           q \<in> set (citycells c))"
    if tile: "tileAt ?g' q = Some ct'" for q ct'
  proof (cases "q = p")
    case True
    with tile have "ct' = \<lparr>tile_team = team, cityid = ?cid, tile_cooldown = 0,
         adjacentCityTiles = length (adjSameTeamCityTiles g team p)\<rparr>"
      by (simp add: tileAt_attached)
    with True p team show ?thesis
      by (simp add: inmap m)
  next
    case False
    from tile_old [OF tile False] obtain ct where ct: "tileAt g q = Some ct"
      "cityid ct' = cityid ct" "tile_team ct' = tile_team ct"
      by blast
    from registry_ok_tile [OF ok ct(1)] obtain c where c: "inMap (gmap g) q"
        "map_of (cities g) (cityid ct) = Some c" "city_team c = tile_team ct"
        "q \<in> set (citycells c)"
      by blast
    show ?thesis
    proof (cases "cityid ct = ?cid")
      case True
      with c c0 have "c = c0" by simp
      with c True ct show ?thesis by (simp add: inmap m)
    next
      case False
      with c ct show ?thesis by (simp add: inmap m)
    qed
  qed
  have 3: "citycells c \<noteq> [] \<and> distinct (citycells c) \<and>
        (\<forall>q \<in> set (citycells c). \<exists>ct. tileAt ?g' q = Some ct \<and> cityid ct = j)"
    if city: "map_of (cities ?g') j = Some c" for j c
  proof (cases "j = ?cid")
    case True
    with city have c: "c = ?c0'" by (simp add: m)
    have "\<exists>ct. tileAt ?g' q = Some ct \<and> cityid ct = ?cid" if "q \<in> set (citycells c0)" for q
      using registry_ok_city(3) [OF ok c0 that] tile_new by fastforce
    moreover have "\<exists>ct. tileAt ?g' p = Some ct \<and> cityid ct = ?cid"
      by (simp add: tileAt_attached)
    ultimately show ?thesis
      using registry_ok_city(2) [OF ok c0] pnot [OF c0] by (auto simp: c True)
  next
    case False
    with city have c: "map_of (cities g) j = Some c" by (simp add: m)
    have "\<exists>ct. tileAt ?g' q = Some ct \<and> cityid ct = j" if "q \<in> set (citycells c)" for q
      using registry_ok_city(3) [OF ok c that] tile_new by fastforce
    with registry_ok_city(1,2) [OF ok c] show ?thesis by simp
  qed
  from 1 2 3 show ?thesis
    unfolding registry_ok_def by blast
qed

lemma filter_length_add:
  "distinct xs \<Longrightarrow> p \<in> set xs \<Longrightarrow> \<not> P p \<Longrightarrow>
   length (filter (\<lambda>r. r = p \<or> P r) xs) = length (filter P xs) + 1"
proof (induction xs)
  case Nil
  then show ?case by simp
next
  case (Cons a xs)
  show ?case
  proof (cases "a = p")
    case True
    with Cons.prems have "p \<notin> set xs" by simp
    then have "filter (\<lambda>r. r = p \<or> P r) xs = filter P xs"
      by (intro filter_cong) auto
    with True Cons.prems show ?thesis by simp
  next
    case False
    with Cons show ?thesis by simp
  qed
qed

lemma isTeamTile_attached:
  assumes "tileAt g p = None"
  shows "isTeamTile (attached team p g) t r \<longleftrightarrow> (r = p \<and> t = team) \<or> isTeamTile g t r"
proof (cases "r = p")
  case True
  with assms show ?thesis
    by (auto simp: isTeamTile_def tileAt_attached)
next
  case False
  then show ?thesis
    by (cases "tileAt g r") (auto simp: isTeamTile_def tileAt_attached)
qed

lemma counters_okD:
  "counters_ok g \<Longrightarrow> tileAt g p = Some ct \<Longrightarrow>
   adjacentCityTiles ct = length (adjSameTeamCityTiles g (tile_team ct) p)"
  unfolding counters_ok_def by blast

lemma attached_counters_ok:
  assumes ok: "registry_ok g"
    and cnt: "counters_ok g"
    and p: "inMap (gmap g) p"
    and none: "tileAt g p = None"
  shows "counters_ok (attached team p g)"
  unfolding counters_ok_def
proof (intro allI impI)
  fix q ct'
  let ?g' = "attached team p g"
  assume tile: "tileAt ?g' q = Some ct'"
  have adj: "getAdjacentCells (gmap ?g') = getAdjacentCells (gmap g)"
    by (rule adj_of_dims) simp
  have np: "\<not> isTeamTile g t p" for t
    using none by (simp add: isTeamTile_def)
  have same: "adjSameTeamCityTiles ?g' t q = adjSameTeamCityTiles g t q"
    if "t \<noteq> team \<or> p \<notin> set (getAdjacentCells (gmap g) q)" for t
    unfolding adjSameTeamCityTiles_def adj
    using that np by (intro filter_cong) (auto simp: isTeamTile_attached [OF none])
  show "adjacentCityTiles ct' = length (adjSameTeamCityTiles ?g' (tile_team ct') q)"
  proof (cases "q = p")
    case True
    with tile have ct': "ct' = \<lparr>tile_team = team, cityid = firstCityId g team p, tile_cooldown = 0,
         adjacentCityTiles = length (adjSameTeamCityTiles g team p)\<rparr>"
      by (simp add: tileAt_attached)
    have "p \<notin> set (getAdjacentCells (gmap g) p)"
      by (rule adj_irrefl)
    from same [of team, OF disjI2] this True show ?thesis
      by (simp add: ct')
  next
    case False
    show ?thesis
    proof (cases "q \<in> set (adjSameTeamCityTiles g team p)")
      case True
      then obtain ct where ct: "tileAt g q = Some ct" "tile_team ct = team"
        and qp: "q \<in> set (getAdjacentCells (gmap g) p)"
        by (auto simp: adjSame_iff)
      from tile True False ct have ct': "ct' = ct\<lparr>adjacentCityTiles := adjacentCityTiles ct + 1\<rparr>"
        by (simp add: tileAt_attached)
      from registry_ok_tile [OF ok ct(1)] have "inMap (gmap g) q"
        by blast
      with qp p have pq: "p \<in> set (getAdjacentCells (gmap g) q)"
        using adj_sym by blast
      have "adjSameTeamCityTiles ?g' team q =
          filter (\<lambda>r. r = p \<or> isTeamTile g team r) (getAdjacentCells (gmap g) q)"
        unfolding adjSameTeamCityTiles_def adj
        by (intro filter_cong) (auto simp: isTeamTile_attached [OF none])
      then have "length (adjSameTeamCityTiles ?g' team q) =
          length (adjSameTeamCityTiles g team q) + 1"
        using filter_length_add [of "getAdjacentCells (gmap g) q" p "isTeamTile g team",
            OF adj_distinct pq np]
        by (simp add: adjSameTeamCityTiles_def)
      moreover have "adjacentCityTiles ct = length (adjSameTeamCityTiles g team q)"
        using counters_okD [OF cnt ct(1)] ct(2) by simp
      ultimately show ?thesis
        by (simp add: ct' ct(2))
    next
      case notadj: False
      with tile False have ct: "tileAt g q = Some ct'"
        by (simp add: tileAt_attached)
      from registry_ok_tile [OF ok ct] have "inMap (gmap g) q"
        by blast
      with p have sym: "p \<in> set (getAdjacentCells (gmap g) q) \<longleftrightarrow>
          q \<in> set (getAdjacentCells (gmap g) p)"
        using adj_sym by blast
      from notadj ct have "tile_team ct' \<noteq> team \<or> q \<notin> set (getAdjacentCells (gmap g) p)"
        by (auto simp: adjSame_iff)
      with sym have "tile_team ct' \<noteq> team \<or> p \<notin> set (getAdjacentCells (gmap g) q)"
        by simp
      from same [OF this] counters_okD [OF cnt ct] show ?thesis
        by simp
    qed
  qed
qed

declare split_paired_All [simp del] split_paired_Ex [simp del]

lemma cityid_renamed_all:
  "cityid (renamed_all ks cid t) = (if cityid t \<in> set ks then cid else cityid t)"
  by (simp add: renamed_all_def)

lemma renamed_all_keeps [simp]:
  "tile_team (renamed_all ks cid t) = tile_team t"
  "adjacentCityTiles (renamed_all ks cid t) = adjacentCityTiles t"
  "tile_cooldown (renamed_all ks cid t) = tile_cooldown t"
  by (simp_all add: renamed_all_def)

lemma adjacent_shareD:
  "adjacent_share g \<Longrightarrow> tileAt g p = Some ctp \<Longrightarrow> tileAt g q = Some ctq \<Longrightarrow>
   q \<in> set (getAdjacentCells (gmap g) p) \<Longrightarrow> tile_team ctp = tile_team ctq \<Longrightarrow>
   cityid ctp = cityid ctq"
  unfolding adjacent_share_def by blast

lemma cityIdsFound_iff:
  "k \<in> set (cityIdsFound g team p) \<longleftrightarrow>
     (\<exists>q ct. q \<in> set (adjSameTeamCityTiles g team p) \<and> tileAt g q = Some ct \<and> cityid ct = k)"
proof
  assume "k \<in> set (cityIdsFound g team p)"
  then obtain q where q: "q \<in> set (adjSameTeamCityTiles g team p)"
    "k = cityid (the (tileAt g q))"
    by (auto simp: cityIdsFound_def)
  from q(1) obtain ct where "tileAt g q = Some ct"
    by (auto simp: adjSame_iff)
  with q show "\<exists>q ct. q \<in> set (adjSameTeamCityTiles g team p) \<and> tileAt g q = Some ct \<and>
      cityid ct = k"
    by auto
next
  assume "\<exists>q ct. q \<in> set (adjSameTeamCityTiles g team p) \<and> tileAt g q = Some ct \<and>
      cityid ct = k"
  then obtain q ct where "q \<in> set (adjSameTeamCityTiles g team p)" "tileAt g q = Some ct"
    "cityid ct = k"
    by blast
  then have "k = cityid (the (tileAt g q))" by simp
  with \<open>q \<in> set (adjSameTeamCityTiles g team p)\<close> show "k \<in> set (cityIdsFound g team p)"
    by (simp add: cityIdsFound_def)
qed

lemma spawn_attach_result:
  assumes ok: "registry_ok g" and share: "adjacent_share g" and cnt: "counters_ok g"
    and p: "inMap (gmap g) p" and none: "tileAt g p = None"
    and adj: "adjSameTeamCityTiles g team p \<noteq> []"
  shows "\<exists>g' c0. spawnCityTile add g team p arg = Some g' \<and>
     map_of (cities g) (firstCityId g team p) = Some c0 \<and> city_team c0 = team \<and>
     registry_ok g' \<and> adjacent_share g' \<and> counters_ok g' \<and>
     (\<forall>q. tileAt g' q =
        map_option (renamed_all (cityIdsFound g team p) (firstCityId g team p))
          (tileAt (attached team p g) q)) \<and>
     map_of (cities g') =
       (\<lambda>j. if j = firstCityId g team p
            then Some (merged add (c0\<lparr>citycells := citycells c0 @ [p]\<rparr>)
              (map (cityOf g) (filter (\<lambda>k. k \<noteq> firstCityId g team p) (cityIdsFound g team p))))
            else if j \<in> set (cityIdsFound g team p) then None else map_of (cities g) j) \<and>
     dims g' = dims g \<and>
     globalCityIDCount g' = globalCityIDCount g"
proof -
  let ?cid = "firstCityId g team p"
  let ?ks = "cityIdsFound g team p"
  let ?adj = "adjSameTeamCityTiles g team p"
  let ?a = "attached team p g"
  from adj have "hd ?adj \<in> set ?adj" by simp
  then obtain t0 where t0: "tileAt g (hd ?adj) = Some t0" "tile_team t0 = team"
    by (auto simp: adjSame_iff)
  have cid: "?cid = cityid t0"
    by (simp add: firstCityId_def t0)
  from registry_ok_tile [OF ok t0(1)] obtain c0 where c0': "map_of (cities g) (cityid t0) = Some c0"
      "city_team c0 = tile_team t0"
    by blast
  have c0: "map_of (cities g) ?cid = Some c0" "city_team c0 = team"
    using c0' cid t0(2) by simp_all
  have cid_in: "?cid \<in> set ?ks"
    unfolding cityIdsFound_iff using \<open>hd ?adj \<in> set ?adj\<close> t0(1) cid by metis
  let ?c0' = "c0\<lparr>citycells := citycells c0 @ [p]\<rparr>"
  have ma: "map_of (cities ?a) = (map_of (cities g))(?cid \<mapsto> ?c0')"
    by (rule ext) (simp add: cities_attached map_of_map_entry c0)
  have oka: "registry_ok ?a"
    by (rule attached_registry_ok [OF ok p none c0])
  have cnta: "counters_ok ?a"
    by (rule attached_counters_ok [OF ok cnt p none])
  have c0a: "map_of (cities ?a) ?cid = Some ?c0'"
    by (simp add: ma)
  have pre: "\<forall>k \<in> set ?ks. k \<noteq> ?cid \<longrightarrow>
           (\<exists>old. map_of (cities ?a) k = Some old \<and> city_team old = city_team ?c0')"
  proof (intro ballI impI)
    fix k assume k: "k \<in> set ?ks" "k \<noteq> ?cid"
    then obtain q ct where q: "q \<in> set ?adj" "tileAt g q = Some ct" "cityid ct = k"
      unfolding cityIdsFound_iff by blast
    then have "tile_team ct = team" by (auto simp: adjSame_iff)
    with registry_ok_tile [OF ok q(2)] q(3) obtain c where
      "map_of (cities g) k = Some c" "city_team c = team"
      by metis
    with k(2) c0(2) show "\<exists>old. map_of (cities ?a) k = Some old \<and> city_team old = city_team ?c0'"
      by (simp add: ma)
  qed
  have dk: "distinct ?ks"
    by (simp add: cityIdsFound_def)
  from merge_cities_result [OF oka c0a dk pre]
  obtain g' where g': "merge_cities add ?cid ?ks ?a = Some g'" "registry_ok g'"
    "\<forall>q. tileAt g' q = map_option (renamed_all ?ks ?cid) (tileAt ?a q)"
    "map_of (cities g') =
       (\<lambda>j. if j = ?cid
            then Some (merged add ?c0' (map (cityOf ?a) (filter (\<lambda>k. k \<noteq> ?cid) ?ks)))
            else if j \<in> set ?ks then None else map_of (cities ?a) j)"
    "dims g' = dims ?a" "globalCityIDCount g' = globalCityIDCount ?a"
    by blast
  have sp: "spawnCityTile add g team p arg = Some g'"
    using spawnCityTile_attach [OF p adj c0(1)] g'(1) by simp
  have same: "map (cityOf ?a) (filter (\<lambda>k. k \<noteq> ?cid) ?ks) =
      map (cityOf g) (filter (\<lambda>k. k \<noteq> ?cid) ?ks)"
    by (simp add: cityOf_def ma)
  have cities': "map_of (cities g') =
       (\<lambda>j. if j = ?cid
            then Some (merged add ?c0' (map (cityOf g) (filter (\<lambda>k. k \<noteq> ?cid) ?ks)))
            else if j \<in> set ?ks then None else map_of (cities g) j)"
    unfolding g'(4) same by (intro ext) (simp add: ma)
  have adjg: "getAdjacentCells (gmap g') = getAdjacentCells (gmap g)"
    by (rule adj_of_dims) (simp add: g'(5))
  have teams: "\<forall>q. map_option tile_team (tileAt g' q) = map_option tile_team (tileAt ?a q)"
    by (simp add: g'(3) option.map_comp comp_def)
  have cnt': "counters_ok g'"
    unfolding counters_ok_def
  proof (intro allI impI)
    fix q ct' assume "tileAt g' q = Some ct'"
    then obtain ct where ct: "tileAt ?a q = Some ct" "ct' = renamed_all ?ks ?cid ct"
      using g'(3) by auto
    from counters_okD [OF cnta ct(1)] adjSame_cong [OF g'(5) teams]
    show "adjacentCityTiles ct' = length (adjSameTeamCityTiles g' (tile_team ct') q)"
      by (simp add: ct(2))
  qed
  have newid: "cityid t' = ?cid"
    if "tileAt g' q = Some t'" "tile_team t' = team" "q \<in> set (getAdjacentCells (gmap g) p)"
    for q t'
  proof -
    from that(3) have qp: "q \<noteq> p"
      using adj_irrefl [of p "gmap g"] by auto
    from that(1) obtain a where a: "tileAt ?a q = Some a" "t' = renamed_all ?ks ?cid a"
      using g'(3) by auto
    from a(1) qp obtain t where t: "tileAt g q = Some t" "cityid a = cityid t"
        "tile_team a = tile_team t"
      by (auto simp: tileAt_attached split: if_splits)
    with that(2,3) a(2) have "q \<in> set ?adj"
      by (simp add: adjSame_iff)
    with t have "cityid t \<in> set ?ks"
      unfolding cityIdsFound_iff by blast
    with a(2) t(2) show ?thesis
      by (simp add: cityid_renamed_all)
  qed
  have pt: "\<exists>t. tileAt g' p = Some t \<and> cityid t = ?cid \<and> tile_team t = team"
    using cid_in by (simp add: g'(3) tileAt_attached cityid_renamed_all)
  have share': "adjacent_share g'"
    unfolding adjacent_share_def adjg
  proof (intro allI impI)
    fix q1 q2 t1 t2
    assume t1: "tileAt g' q1 = Some t1" and t2: "tileAt g' q2 = Some t2"
      and a12: "q2 \<in> set (getAdjacentCells (gmap g) q1)" and tt: "tile_team t1 = tile_team t2"
    show "cityid t1 = cityid t2"
    proof (cases "q1 = p")
      case True
      with pt t1 have 1: "cityid t1 = ?cid" "tile_team t1 = team" by auto
      with newid [OF t2] tt a12 True show ?thesis by simp
    next
      case q1: False
      from t1 obtain a1 where a1: "tileAt ?a q1 = Some a1" "t1 = renamed_all ?ks ?cid a1"
        using g'(3) by auto
      from a1(1) q1 obtain u1 where u1: "tileAt g q1 = Some u1" "cityid a1 = cityid u1"
        "tile_team a1 = tile_team u1"
        by (auto simp: tileAt_attached split: if_splits)
      from registry_ok_tile [OF ok u1(1)] have in1: "inMap (gmap g) q1" by blast
      show ?thesis
      proof (cases "q2 = p")
        case True
        with pt t2 have 2: "cityid t2 = ?cid" "tile_team t2 = team" by auto
        from a12 True in1 p have "q1 \<in> set (getAdjacentCells (gmap g) p)"
          using adj_sym by blast
        from newid [OF t1 _ this] tt 2 show ?thesis by simp
      next
        case q2: False
        from t2 obtain a2 where a2: "tileAt ?a q2 = Some a2" "t2 = renamed_all ?ks ?cid a2"
          using g'(3) by auto
        from a2(1) q2 obtain u2 where u2: "tileAt g q2 = Some u2" "cityid a2 = cityid u2"
          "tile_team a2 = tile_team u2"
          by (auto simp: tileAt_attached split: if_splits)
        have "cityid u1 = cityid u2"
          using adjacent_shareD [OF share u1(1) u2(1) a12] tt a1(2) a2(2) u1(3) u2(3) by simp
        then show ?thesis
          by (simp add: a1(2) a2(2) cityid_renamed_all u1(2) u2(2))
      qed
    qed
  qed
  from sp c0 g'(2) share' cnt' g'(3) cities' g'(5,6) show ?thesis
    by simp
qed

lemma of_char_digit_char: "d < 10 \<Longrightarrow> (of_char (digit_char d) :: nat) = 48 + d"
  by (simp add: digit_char_def)

lemma undigits_digits: "undigits (digits n) = n"
proof (induction n rule: digits.induct)
  case (1 n)
  show ?case
  proof (cases "n < 10")
    case True
    then show ?thesis
      by (subst digits.simps) (simp add: undigits_def of_char_digit_char)
  next
    case False
    have "undigits (digits n) = 10 * undigits (digits (n div 10)) + n mod 10"
      using False by (subst digits.simps) (simp add: undigits_def of_char_digit_char)
    with 1 False show ?thesis by simp
  qed
qed

lemma new_city_id_inj: "new_city_id m = new_city_id n \<Longrightarrow> m = n"
proof -
  assume "new_city_id m = new_city_id n"
  then have "digits m = digits n"
    by (simp add: new_city_id_def)
  then have "undigits (digits m) = undigits (digits n)"
    by simp
  then show "m = n"
    by (simp add: undigits_digits)
qed

lemma update_absent: "k \<notin> fst ` set xs \<Longrightarrow> AList.update k v xs = xs @ [(k, v)]"
  by (induction xs) auto

lemma spawnCityTile_founded:
  "inMap (gmap g) p \<Longrightarrow> adjSameTeamCityTiles g team p = [] \<Longrightarrow>
     spawnCityTile add g team p None = Some (founded team p g)"
  by (simp add: spawnCityTile_def founded_def Let_def)

lemma tileAt_founded:
  "tileAt (founded team p g) q =
     (if q = p then Some \<lparr>tile_team = team, cityid = new_city_id (globalCityIDCount g + 1),
         tile_cooldown = 0, adjacentCityTiles = 0\<rparr>
      else tileAt g q)"
  by (simp add: founded_def Let_def tileAt_setCityTile)

lemma founded_frame [simp]:
  "dims (founded team p g) = dims g"
  "globalCityIDCount (founded team p g) = globalCityIDCount g + 1"
  by (simp_all add: founded_def Let_def dims_def setCityTile_def update_cell_def)

lemma cities_founded:
  "cities (founded team p g) =
     AList.update (new_city_id (globalCityIDCount g + 1))
       \<lparr>city_team = team, fuel = 0, citycells = [p]\<rparr> (cities g)"
  by (simp add: founded_def Let_def newCity_def setCityTile_def update_cell_def)

lemma ids_generated_fresh:
  assumes "ids_generated g"
  shows "new_city_id (globalCityIDCount g + 1) \<notin> fst ` set (cities g)"
proof
  assume "new_city_id (globalCityIDCount g + 1) \<in> fst ` set (cities g)"
  with assms obtain n where "new_city_id (globalCityIDCount g + 1) = new_city_id n"
    "n \<le> globalCityIDCount g"
    unfolding ids_generated_def by blast
  with new_city_id_inj show False by fastforce
qed

lemma isTeamTile_founded:
  assumes "tileAt g p = None"
  shows "isTeamTile (founded team p g) t r \<longleftrightarrow> (r = p \<and> t = team) \<or> isTeamTile g t r"
proof (cases "r = p")
  case True
  with assms show ?thesis
    by (auto simp: isTeamTile_def tileAt_founded)
next
  case False
  then show ?thesis
    by (cases "tileAt g r") (auto simp: isTeamTile_def tileAt_founded)
qed

lemma spawn_new_result:
  assumes ok: "registry_ok g" and share: "adjacent_share g" and cnt: "counters_ok g"
    and gen: "ids_generated g"
    and p: "inMap (gmap g) p" and none: "tileAt g p = None"
    and adj: "adjSameTeamCityTiles g team p = []"
  shows "registry_ok (founded team p g) \<and> adjacent_share (founded team p g) \<and>
     counters_ok (founded team p g) \<and> ids_generated (founded team p g)"
proof -
  let ?cid = "new_city_id (globalCityIDCount g + 1)"
  let ?g' = "founded team p g"
  let ?new = "\<lparr>city_team = team, fuel = 0, citycells = [p]\<rparr>"
  have fresh: "?cid \<notin> fst ` set (cities g)"
    by (rule ids_generated_fresh [OF gen])
  then have nocity: "map_of (cities g) ?cid = None"
    by (simp add: map_of_eq_None_iff)
  have m: "map_of (cities ?g') = (map_of (cities g))(?cid \<mapsto> ?new)"
    by (rule ext) (simp add: cities_founded update_conv')
  have inmap: "inMap (gmap ?g') = inMap (gmap g)"
    by (rule inMap_of_dims) simp
  have adjg: "getAdjacentCells (gmap ?g') = getAdjacentCells (gmap g)"
    by (rule adj_of_dims) simp
  have 1: "distinct (map fst (cities ?g'))"
    using registry_ok_distinct [OF ok] by (simp add: cities_founded distinct_update)
  have 2: "inMap (gmap ?g') q \<and>
        (\<exists>c. map_of (cities ?g') (cityid ct) = Some c \<and> city_team c = tile_team ct \<and>
           q \<in> set (citycells c))"
    if tile: "tileAt ?g' q = Some ct" for q ct
  proof (cases "q = p")
    case True
    with tile p show ?thesis
      by (auto simp: tileAt_founded inmap m)
  next
    case False
    with tile have t: "tileAt g q = Some ct" by (simp add: tileAt_founded)
    from registry_ok_tile [OF ok t] obtain c where c: "inMap (gmap g) q"
        "map_of (cities g) (cityid ct) = Some c" "city_team c = tile_team ct"
        "q \<in> set (citycells c)"
      by blast
    with nocity have "cityid ct \<noteq> ?cid" by auto
    with c show ?thesis by (simp add: inmap m)
  qed
  have 3: "citycells c \<noteq> [] \<and> distinct (citycells c) \<and>
        (\<forall>q \<in> set (citycells c). \<exists>ct. tileAt ?g' q = Some ct \<and> cityid ct = j)"
    if city: "map_of (cities ?g') j = Some c" for j c
  proof (cases "j = ?cid")
    case True
    with city have "c = ?new" by (simp add: m)
    with True show ?thesis by (simp add: tileAt_founded)
  next
    case False
    with city have c: "map_of (cities g) j = Some c" by (simp add: m)
    have "\<exists>ct. tileAt ?g' q = Some ct \<and> cityid ct = j" if "q \<in> set (citycells c)" for q
    proof -
      from registry_ok_city(3) [OF ok c that] obtain ct where "tileAt g q = Some ct"
        "cityid ct = j" by blast
      with none show ?thesis by (auto simp: tileAt_founded)
    qed
    with registry_ok_city(1,2) [OF ok c] show ?thesis by simp
  qed
  have r: "registry_ok ?g'"
    using 1 2 3 unfolding registry_ok_def by blast
  have noadj: "\<not> (q \<in> set (getAdjacentCells (gmap g) p) \<and> tileAt g q = Some t \<and> tile_team t = team)"
    for q t
    using adj adjSame_iff [of q g team p] by auto
  have s: "adjacent_share ?g'"
    unfolding adjacent_share_def adjg
  proof (intro allI impI)
    fix q1 q2 t1 t2
    assume t1: "tileAt ?g' q1 = Some t1" and t2: "tileAt ?g' q2 = Some t2"
      and a12: "q2 \<in> set (getAdjacentCells (gmap g) q1)" and tt: "tile_team t1 = tile_team t2"
    show "cityid t1 = cityid t2"
    proof (cases "q1 = p")
      case True
      with a12 have "q2 \<noteq> p" using adj_irrefl [of p "gmap g"] by auto
      with t2 have "tileAt g q2 = Some t2" by (simp add: tileAt_founded)
      with noadj [of q2 t2] a12 True t1 tt show ?thesis
        by (auto simp: tileAt_founded)
    next
      case q1: False
      with t1 have u1: "tileAt g q1 = Some t1" by (simp add: tileAt_founded)
      from registry_ok_tile [OF ok u1] have in1: "inMap (gmap g) q1" by blast
      show ?thesis
      proof (cases "q2 = p")
        case True
        from a12 True in1 p have "q1 \<in> set (getAdjacentCells (gmap g) p)"
          using adj_sym by blast
        with noadj [of q1 t1] u1 True t2 tt show ?thesis
          by (auto simp: tileAt_founded)
      next
        case False
        with t2 have "tileAt g q2 = Some t2" by (simp add: tileAt_founded)
        from adjacent_shareD [OF share u1 this a12 tt] show ?thesis .
      qed
    qed
  qed
  have c: "counters_ok ?g'"
    unfolding counters_ok_def
  proof (intro allI impI)
    fix q ct assume tile: "tileAt ?g' q = Some ct"
    show "adjacentCityTiles ct = length (adjSameTeamCityTiles ?g' (tile_team ct) q)"
    proof (cases "q = p")
      case True
      with tile have ct: "ct = \<lparr>tile_team = team, cityid = ?cid, tile_cooldown = 0,
          adjacentCityTiles = 0\<rparr>"
        by (simp add: tileAt_founded)
      have "adjSameTeamCityTiles ?g' team p = adjSameTeamCityTiles g team p"
        unfolding adjSameTeamCityTiles_def adjg
        using adj_irrefl [of p "gmap g"]
        by (intro filter_cong) (auto simp: isTeamTile_founded [OF none])
      with adj True show ?thesis by (simp add: ct)
    next
      case False
      with tile have t: "tileAt g q = Some ct" by (simp add: tileAt_founded)
      from registry_ok_tile [OF ok t] have inq: "inMap (gmap g) q" by blast
      have "\<not> (p \<in> set (getAdjacentCells (gmap g) q) \<and> tile_team ct = team)"
        using noadj [of q ct] t adj_sym [OF p inq] by auto
      then have "adjSameTeamCityTiles ?g' (tile_team ct) q = adjSameTeamCityTiles g (tile_team ct) q"
        unfolding adjSameTeamCityTiles_def adjg
        by (intro filter_cong) (auto simp: isTeamTile_founded [OF none])
      with counters_okD [OF cnt t] show ?thesis by simp
    qed
  qed
  have i: "ids_generated ?g'"
    unfolding ids_generated_def
  proof
    fix k assume "k \<in> fst ` set (cities ?g')"
    then have "k = ?cid \<or> k \<in> fst ` set (cities g)"
      by (simp add: cities_founded dom_update)
    then show "\<exists>n. k = new_city_id n \<and> n \<le> globalCityIDCount ?g'"
    proof
      assume "k = ?cid"
      then show ?thesis by auto
    next
      assume "k \<in> fst ` set (cities g)"
      with gen obtain n where "k = new_city_id n" "n \<le> globalCityIDCount g"
        unfolding ids_generated_def by blast
      then show ?thesis by auto
    qed
  qed
  from r s c i show ?thesis by simp
qed

lemma fold_clear_tile:
  "tileAt (fold (\<lambda>q. update_cell q (\<lambda>c. c\<lparr>citytile := None, road := r\<rparr>)) qs g) q =
     (if q \<in> set qs then None else tileAt g q)"
  by (induction qs arbitrary: g) (simp_all add: tileAt_update_cell)

lemma fold_clear_frame [simp]:
  "cities (fold (\<lambda>q. update_cell q f) qs g) = cities g"
  "dims (fold (\<lambda>q. update_cell q f) qs g) = dims g"
  "globalCityIDCount (fold (\<lambda>q. update_cell q f) qs g) = globalCityIDCount g"
  by (induction qs arbitrary: g) simp_all

lemma destroyCity_result:
  assumes "map_of (cities g) k = Some c" and "destroyCity g k = Some g'"
  shows "tileAt g' q = (if q \<in> set (citycells c) then None else tileAt g q)"
    and "cities g' = AList.delete k (cities g)"
    and "dims g' = dims g" and "globalCityIDCount g' = globalCityIDCount g"
  using assms by (auto simp: destroyCity_def fold_clear_tile)

lemma destroyCity_Some:
  "map_of (cities g) k = Some c \<Longrightarrow> \<exists>g'. destroyCity g k = Some g'"
  by (simp add: destroyCity_def)

lemma destroyCity_wf:
  assumes wf: "wf g" and c: "map_of (cities g) k = Some c" and d: "destroyCity g k = Some g'"
  shows "wf g'"
proof -
  from wf have ok: "registry_ok g" and share: "adjacent_share g" and cnt: "counters_ok g"
    and gen: "ids_generated g"
    by (simp_all add: wf_def)
  note r = destroyCity_result [OF c d]
  have m: "map_of (cities g') = (map_of (cities g))(k := None)"
    by (rule ext) (simp add: r(2) delete_conv)
  have inmap: "inMap (gmap g') = inMap (gmap g)"
    by (rule inMap_of_dims [OF r(3)])
  have adjg: "getAdjacentCells (gmap g') = getAdjacentCells (gmap g)"
    by (rule adj_of_dims [OF r(3)])
  have kept: "tileAt g q = Some ct \<and> cityid ct \<noteq> k" if "tileAt g' q = Some ct" for q ct
  proof -
    from that have t: "tileAt g q = Some ct" "q \<notin> set (citycells c)"
      by (auto simp: r(1) split: if_splits)
    with registry_ok_cells_iff [OF ok c t(1)] show ?thesis by simp
  qed
  have stays: "tileAt g' q = Some ct" if "tileAt g q = Some ct" "cityid ct \<noteq> k" for q ct
    using that registry_ok_cells_iff [OF ok c that(1)] by (simp add: r(1))
  have 1: "distinct (map fst (cities g'))"
    using registry_ok_distinct [OF ok] by (simp add: r(2) distinct_delete)
  have 2: "inMap (gmap g') q \<and>
        (\<exists>c. map_of (cities g') (cityid ct) = Some c \<and> city_team c = tile_team ct \<and>
           q \<in> set (citycells c))"
    if tile: "tileAt g' q = Some ct" for q ct
  proof -
    from kept [OF tile] have t: "tileAt g q = Some ct" "cityid ct \<noteq> k" by simp_all
    from registry_ok_tile [OF ok t(1)] t(2) show ?thesis
      by (auto simp: inmap m)
  qed
  have 3: "citycells c' \<noteq> [] \<and> distinct (citycells c') \<and>
        (\<forall>q \<in> set (citycells c'). \<exists>ct. tileAt g' q = Some ct \<and> cityid ct = j)"
    if city: "map_of (cities g') j = Some c'" for j c'
  proof -
    from city have j: "j \<noteq> k" and c': "map_of (cities g) j = Some c'"
      by (auto simp: m split: if_splits)
    have "\<exists>ct. tileAt g' q = Some ct \<and> cityid ct = j" if "q \<in> set (citycells c')" for q
    proof -
      from registry_ok_city(3) [OF ok c' that] obtain ct where ct: "tileAt g q = Some ct"
        "cityid ct = j" by blast
      with j stays [of q ct] show ?thesis by simp
    qed
    with registry_ok_city(1,2) [OF ok c'] show ?thesis by simp
  qed
  have rg: "registry_ok g'"
    using 1 2 3 unfolding registry_ok_def by blast
  have sh: "adjacent_share g'"
    unfolding adjacent_share_def adjg
  proof (intro allI impI)
    fix q1 q2 t1 t2
    assume "tileAt g' q1 = Some t1" "tileAt g' q2 = Some t2"
      "q2 \<in> set (getAdjacentCells (gmap g) q1)" "tile_team t1 = tile_team t2"
    with kept [of q1 t1] kept [of q2 t2] adjacent_shareD [OF share, of q1 t1 q2 t2]
    show "cityid t1 = cityid t2" by simp
  qed
  have cn: "counters_ok g'"
    unfolding counters_ok_def
  proof (intro allI impI)
    fix q ct assume tile: "tileAt g' q = Some ct"
    from kept [OF tile] have t: "tileAt g q = Some ct" "cityid ct \<noteq> k" by simp_all
    have "isTeamTile g' (tile_team ct) r = isTeamTile g (tile_team ct) r"
      if ra: "r \<in> set (getAdjacentCells (gmap g) q)" for r
    proof (cases "tileAt g r")
      case None
      then show ?thesis by (simp add: isTeamTile_def r(1))
    next
      case (Some u)
      show ?thesis
      proof (cases "tile_team u = tile_team ct")
        case True
        from adjacent_shareD [OF share t(1) Some ra] True have "cityid u = cityid ct" by simp
        with t(2) stays [OF Some] Some True show ?thesis by (simp add: isTeamTile_def)
      next
        case False
        with Some show ?thesis by (auto simp: isTeamTile_def r(1))
      qed
    qed
    then have "adjSameTeamCityTiles g' (tile_team ct) q = adjSameTeamCityTiles g (tile_team ct) q"
      unfolding adjSameTeamCityTiles_def adjg by (intro filter_cong) auto
    with counters_okD [OF cnt t(1)]
    show "adjacentCityTiles ct = length (adjSameTeamCityTiles g' (tile_team ct) q)" by simp
  qed
  have ig: "ids_generated g'"
    using gen dom_delete_subset [of k "cities g"]
    unfolding ids_generated_def r(2) r(4) by blast
  from rg sh cn ig show ?thesis by (simp add: wf_def)
qed

lemma keys_map_of: "k \<in> fst ` set xs \<longleftrightarrow> map_of xs k \<noteq> None"
  by (simp add: map_of_eq_None_iff)

lemma spawn_wf:
  assumes wf: "wf g" and p: "inMap (gmap g) p" and none: "tileAt g p = None"
  shows "\<exists>g'. spawnCityTile add g team p None = Some g' \<and> wf g' \<and>
     dims g' = dims g \<and>
     (\<forall>q. map_option tile_team (tileAt g' q) =
        (if q = p then Some team else map_option tile_team (tileAt g q)))"
proof (cases "adjSameTeamCityTiles g team p = []")
  case True
  from wf have ok: "registry_ok g" and share: "adjacent_share g" and cnt: "counters_ok g"
    and gen: "ids_generated g"
    by (simp_all add: wf_def)
  from spawn_new_result [OF ok share cnt gen p none True] spawnCityTile_founded [OF p True]
  show ?thesis
    by (simp add: wf_def tileAt_founded)
next
  case False
  from wf have ok: "registry_ok g" and share: "adjacent_share g" and cnt: "counters_ok g"
    and gen: "ids_generated g"
    by (simp_all add: wf_def)
  let ?cid = "firstCityId g team p"
  let ?ks = "cityIdsFound g team p"
  from spawn_attach_result [OF ok share cnt p none False, where arg = None and add = add]
  obtain g' c0 where g': "spawnCityTile add g team p None = Some g'"
    "map_of (cities g) ?cid = Some c0" "registry_ok g'" "adjacent_share g'" "counters_ok g'"
    "\<forall>q. tileAt g' q = map_option (renamed_all ?ks ?cid) (tileAt (attached team p g) q)"
    "map_of (cities g') =
       (\<lambda>j. if j = ?cid
            then Some (merged add (c0\<lparr>citycells := citycells c0 @ [p]\<rparr>)
              (map (cityOf g) (filter (\<lambda>k. k \<noteq> ?cid) ?ks)))
            else if j \<in> set ?ks then None else map_of (cities g) j)"
    "dims g' = dims g"
    "globalCityIDCount g' = globalCityIDCount g"
    by blast
  have "fst ` set (cities g') \<subseteq> fst ` set (cities g)"
  proof
    fix j assume "j \<in> fst ` set (cities g')"
    then have "map_of (cities g') j \<noteq> None" by (simp add: keys_map_of)
    then have "map_of (cities g) j \<noteq> None"
      using g'(2) by (auto simp: g'(7) split: if_splits)
    then show "j \<in> fst ` set (cities g)" by (simp add: keys_map_of)
  qed
  with gen have gen': "ids_generated g'"
    unfolding ids_generated_def g'(9) by blast
  have teams: "map_option tile_team (tileAt g' q) =
        (if q = p then Some team else map_option tile_team (tileAt g q))" for q
    by (cases "tileAt g q") (simp_all add: g'(6) tileAt_attached option.map_comp comp_def)
  from g'(1,3,4,5,8) gen' teams show ?thesis
    by (simp add: wf_def)
qed

lemma refuel_simps [simp]:
  "tileAt (refuel f g) q = tileAt g q"
  "dims (refuel f g) = dims g"
  "globalCityIDCount (refuel f g) = globalCityIDCount g"
  "map fst (cities (refuel f g)) = map fst (cities g)"
  by (simp_all add: refuel_def dims_def tileAt_def case_prod_beta comp_def)

lemma map_of_refuel:
  "map_of (cities (refuel f g)) k = map_option (\<lambda>c. c\<lparr>fuel := f k\<rparr>) (map_of (cities g) k)"
proof -
  have "map_of (map (\<lambda>(k, c). (k, c\<lparr>fuel := f k\<rparr>)) xs) k =
      map_option (\<lambda>c. c\<lparr>fuel := f k\<rparr>) (map_of xs k)" for xs
    by (induction xs) auto
  then show ?thesis by (simp add: refuel_def)
qed

lemma refuel_wf: "wf g \<Longrightarrow> wf (refuel f g)"
proof -
  assume wf: "wf g"
  then have ok: "registry_ok g" by (simp add: wf_def)
  have inmap: "inMap (gmap (refuel f g)) = inMap (gmap g)"
    by (rule inMap_of_dims) simp
  have adjg: "getAdjacentCells (gmap (refuel f g)) = getAdjacentCells (gmap g)"
    by (rule adj_of_dims) simp
  have "registry_ok (refuel f g)"
    unfolding registry_ok_def
  proof (intro conjI allI impI)
    show "distinct (map fst (cities (refuel f g)))"
      using registry_ok_distinct [OF ok] by simp
  next
    fix q ct assume "tileAt (refuel f g) q = Some ct"
    then have t: "tileAt g q = Some ct" by simp
    from registry_ok_tile [OF ok t] obtain c where c: "inMap (gmap g) q"
      "map_of (cities g) (cityid ct) = Some c" "city_team c = tile_team ct"
      "q \<in> set (citycells c)"
      by blast
    from c(1) show "inMap (gmap (refuel f g)) q" by (simp add: inmap)
    from c(2,3,4)
    show "\<exists>c. map_of (cities (refuel f g)) (cityid ct) = Some c \<and> city_team c = tile_team ct \<and>
        q \<in> set (citycells c)"
      by (simp add: map_of_refuel)
  next
    fix k c assume "map_of (cities (refuel f g)) k = Some c"
    then obtain c' where c': "map_of (cities g) k = Some c'" "c = c'\<lparr>fuel := f k\<rparr>"
      by (auto simp: map_of_refuel)
    from registry_ok_city [OF ok c'(1)]
    show "citycells c \<noteq> []" "distinct (citycells c)"
      "\<forall>p \<in> set (citycells c). \<exists>ct. tileAt (refuel f g) p = Some ct \<and> cityid ct = k"
      by (simp_all add: c'(2))
  qed
  moreover have "adjacent_share (refuel f g)"
    using wf by (simp add: wf_def adjacent_share_def adjg)
  moreover have "adjSameTeamCityTiles (refuel f g) = adjSameTeamCityTiles g"
    by (intro ext adjSame_cong) simp_all
  then have "counters_ok (refuel f g)"
    using wf by (simp add: wf_def counters_ok_def)
  moreover have "ids_generated (refuel f g)"
  proof -
    have "fst ` set (cities (refuel f g)) = fst ` set (cities g)"
      by (metis refuel_simps(4) set_map)
    with wf show ?thesis by (simp add: wf_def ids_generated_def)
  qed
  ultimately show ?thesis by (simp add: wf_def)
qed

lemma cityFree_wf: "cityFree g \<Longrightarrow> wf g"
  by (simp add: cityFree_def wf_def registry_ok_def adjacent_share_def counters_ok_def
      ids_generated_def)

lemma reachable_wf: "reachable add g \<Longrightarrow> wf g"
proof (induction rule: reachable.induct)
  case (start g)
  then show ?case by (rule cityFree_wf)
next
  case (spawn g p team g')
  from spawn.hyps(3) have "inMap (gmap g) p"
    by (rule spawnCityTile_inMap)
  from spawn_wf [OF spawn.IH this spawn.hyps(2), where team = team and add = add]
    spawn.hyps(3)
  show ?case by auto
next
  case (destroy g k g')
  from destroy.hyps(2) obtain c where "map_of (cities g) k = Some c"
    by (auto simp: destroyCity_def split: option.splits)
  from destroyCity_wf [OF destroy.IH this destroy.hyps(2)] show ?case .
qed


lemma spawnCityTiles_reachable:
  assumes "reachable add g" and "distinct ps"
    and "\<forall>p \<in> set ps. inMap (gmap g) p \<and> tileAt g p = None"
    and "spawnCityTiles add g team ps = Some g'"
  shows "reachable add g'"
  using assms
proof (induction ps arbitrary: g)
  case Nil
  then show ?case by simp
next
  case (Cons p ps)
  from Cons.prems have p: "inMap (gmap g) p" "tileAt g p = None" by simp_all
  from spawn_wf [OF reachable_wf [OF Cons.prems(1)] p, where team = team and add = add]
  obtain g1 where
    g1: "spawnCityTile add g team p None = Some g1" "dims g1 = dims g"
      "\<forall>q. map_option tile_team (tileAt g1 q) =
        (if q = p then Some team else map_option tile_team (tileAt g q))"
    by blast
  have r1: "reachable add g1"
    by (rule reachable.spawn [OF Cons.prems(1) p(2) g1(1)])
  have free: "\<forall>q \<in> set ps. inMap (gmap g1) q \<and> tileAt g1 q = None"
  proof
    fix q assume q: "q \<in> set ps"
    with Cons.prems(2) have "q \<noteq> p" by auto
    with g1(3) [rule_format, of q] Cons.prems(3) q have "tileAt g1 q = None"
      by simp
    moreover have "inMap (gmap g1) q"
      using Cons.prems(3) q inMap_of_dims [OF g1(2)] by simp
    ultimately show "inMap (gmap g1) q \<and> tileAt g1 q = None" by simp
  qed
  from Cons.prems(2) have "distinct ps" by simp
  from Cons.IH [OF r1 this free] Cons.prems(4) g1(1) show ?case by simp
qed

lemma newGame_cityFree: "cityFree (newGame w h)"
  by (simp add: cityFree_def newGame_def tileAt_def getCell_def emptyCell_def)

lemma ex1: "spawnCityTiles (+) (newGame 2 1) A [(0, 0), (1, 0)] \<noteq> None"
  by code_simp

lemma ex2: "tileAt (the (spawnCityTiles (+) (newGame 2 1) A [(0, 0), (1, 0)])) (0, 0) =
    Some \<lparr>tile_team = A, cityid = ''c_1'', tile_cooldown = 0, adjacentCityTiles = 1\<rparr>"
  by code_simp

text \<open>
  C10. The counters of the city tiles. In every state reached from a city-free map by
  calls of \<open>spawnCityTile\<close> and \<open>destroyCity\<close>, where \<open>spawnCityTile\<close> is given no city id
  and a cell that holds no city tile, and every call returns (\<open>reachable\<close>), the counter
  of every city tile is the number of the adjacent cells that hold a city tile of its
  team.
\<close>

theorem adjacency_counters_consistent:
  assumes "reachable add g" and "tileAt g p = Some ct"
  shows "adjacentCityTiles ct =
     card {q \<in> set (getAdjacentCells (gmap g) p).
             \<exists>u. tileAt g q = Some u \<and> tile_team u = tile_team ct}"
proof -
  from reachable_wf [OF assms(1)] have "counters_ok g" by (simp add: wf_def)
  from counters_okD [OF this assms(2)]
  have "adjacentCityTiles ct = length (adjSameTeamCityTiles g (tile_team ct) p)" .
  also have "\<dots> = card (set (adjSameTeamCityTiles g (tile_team ct) p))"
    by (simp add: distinct_card adjSame_distinct)
  also have "set (adjSameTeamCityTiles g (tile_team ct) p) =
      {q \<in> set (getAdjacentCells (gmap g) p).
             \<exists>u. tileAt g q = Some u \<and> tile_team u = tile_team ct}"
    by (auto simp: adjSame_iff)
  finally show ?thesis .
qed

theorem adjacency_counters_consistent_witness:
  "reachable (+) (the (spawnCityTiles (+) (newGame 2 1) A [(0, 0), (1, 0)])) \<and>
   tileAt (the (spawnCityTiles (+) (newGame 2 1) A [(0, 0), (1, 0)])) (0, 0) =
     Some \<lparr>tile_team = A, cityid = ''c_1'', tile_cooldown = 0, adjacentCityTiles = 1\<rparr> \<and>
   card {q \<in> set (getAdjacentCells (gmap (the (spawnCityTiles (+) (newGame 2 1) A [(0, 0), (1, 0)])))
                 (0, 0)).
           \<exists>u. tileAt (the (spawnCityTiles (+) (newGame 2 1) A [(0, 0), (1, 0)])) q = Some u \<and>
               tile_team u = A} = 1"
proof -
  let ?g = "the (spawnCityTiles (+) (newGame 2 1) A [(0, 0), (1, 0)])"
  have s: "spawnCityTiles (+) (newGame 2 1) A [(0, 0), (1, 0)] = Some ?g"
    using ex1 by simp
  have free: "\<forall>p \<in> set [(0, 0), (1, 0)].
      inMap (gmap (newGame 2 1)) p \<and> tileAt (newGame 2 1) p = None"
    using newGame_cityFree [of 2 1] by (simp add: cityFree_def inMap_def newGame_def)
  have r: "reachable (+) ?g"
    by (rule spawnCityTiles_reachable [OF reachable.start [OF newGame_cityFree] _ free s]) simp
  from adjacency_counters_consistent [OF r ex2] r ex2 show ?thesis
    by simp
qed

text \<open>
  Without the restriction the counters go wrong. On a city-free map of 2 by 1 cells a
  tile is placed at (0,0), one at (1,0) and one at (0,0) again: the second placement at
  (0,0) increments the counter of the tile at (1,0) once more, which then counts 2
  neighbours and has 1.
\<close>

theorem adjacency_counters_counterexample:
  "cityFree (newGame 2 1) \<and>
   spawnCityTiles (+) (newGame 2 1) A [(0, 0), (1, 0), (0, 0)] \<noteq> None \<and>
   tileAt (the (spawnCityTiles (+) (newGame 2 1) A [(0, 0), (1, 0), (0, 0)])) (1, 0) =
     Some \<lparr>tile_team = A, cityid = ''c_1'', tile_cooldown = 0, adjacentCityTiles = 2\<rparr> \<and>
   length (adjSameTeamCityTiles
     (the (spawnCityTiles (+) (newGame 2 1) A [(0, 0), (1, 0), (0, 0)])) A (1, 0)) = 1"
proof -
  have "spawnCityTiles (+) (newGame 2 1) A [(0, 0), (1, 0), (0, 0)] \<noteq> None \<and>
   tileAt (the (spawnCityTiles (+) (newGame 2 1) A [(0, 0), (1, 0), (0, 0)])) (1, 0) =
     Some \<lparr>tile_team = A, cityid = ''c_1'', tile_cooldown = 0, adjacentCityTiles = 2\<rparr> \<and>
   length (adjSameTeamCityTiles
     (the (spawnCityTiles (+) (newGame 2 1) A [(0, 0), (1, 0), (0, 0)])) A (1, 0)) = 1"
    by code_simp
  with newGame_cityFree [of 2 1] show ?thesis
    by simp
qed

section \<open>Attaching a tile and merging cities\<close>

lemma spawn_attach_registry:
  assumes ok: "registry_ok g"
    and p: "inMap (gmap g) p" and none: "tileAt g p = None"
    and adj: "adjSameTeamCityTiles g team p \<noteq> []"
  shows "\<exists>g' c0. spawnCityTile add g team p arg = Some g' \<and>
     map_of (cities g) (firstCityId g team p) = Some c0 \<and> city_team c0 = team \<and>
     registry_ok g' \<and>
     (\<forall>q. tileAt g' q =
        map_option (renamed_all (cityIdsFound g team p) (firstCityId g team p))
          (tileAt (attached team p g) q)) \<and>
     map_of (cities g') =
       (\<lambda>j. if j = firstCityId g team p
            then Some (merged add (c0\<lparr>citycells := citycells c0 @ [p]\<rparr>)
              (map (cityOf g) (filter (\<lambda>k. k \<noteq> firstCityId g team p) (cityIdsFound g team p))))
            else if j \<in> set (cityIdsFound g team p) then None else map_of (cities g) j)"
proof -
  let ?cid = "firstCityId g team p"
  let ?ks = "cityIdsFound g team p"
  let ?adj = "adjSameTeamCityTiles g team p"
  let ?a = "attached team p g"
  from adj have "hd ?adj \<in> set ?adj" by simp
  then obtain t0 where t0: "tileAt g (hd ?adj) = Some t0" "tile_team t0 = team"
    by (auto simp: adjSame_iff)
  have cid: "?cid = cityid t0"
    by (simp add: firstCityId_def t0)
  from registry_ok_tile [OF ok t0(1)] obtain c0 where c0': "map_of (cities g) (cityid t0) = Some c0"
      "city_team c0 = tile_team t0"
    by blast
  have c0: "map_of (cities g) ?cid = Some c0" "city_team c0 = team"
    using c0' cid t0(2) by simp_all
  let ?c0' = "c0\<lparr>citycells := citycells c0 @ [p]\<rparr>"
  have ma: "map_of (cities ?a) = (map_of (cities g))(?cid \<mapsto> ?c0')"
    by (rule ext) (simp add: cities_attached map_of_map_entry c0)
  have oka: "registry_ok ?a"
    by (rule attached_registry_ok [OF ok p none c0])
  have c0a: "map_of (cities ?a) ?cid = Some ?c0'"
    by (simp add: ma)
  have pre: "\<forall>k \<in> set ?ks. k \<noteq> ?cid \<longrightarrow>
           (\<exists>old. map_of (cities ?a) k = Some old \<and> city_team old = city_team ?c0')"
  proof (intro ballI impI)
    fix k assume k: "k \<in> set ?ks" "k \<noteq> ?cid"
    then obtain q ct where q: "q \<in> set ?adj" "tileAt g q = Some ct" "cityid ct = k"
      unfolding cityIdsFound_iff by blast
    then have "tile_team ct = team" by (auto simp: adjSame_iff)
    with registry_ok_tile [OF ok q(2)] q(3) obtain c where
      "map_of (cities g) k = Some c" "city_team c = team"
      by metis
    with k(2) c0(2) show "\<exists>old. map_of (cities ?a) k = Some old \<and> city_team old = city_team ?c0'"
      by (simp add: ma)
  qed
  have dk: "distinct ?ks"
    by (simp add: cityIdsFound_def)
  from merge_cities_result [OF oka c0a dk pre, where add = add]
  obtain g' where g': "merge_cities add ?cid ?ks ?a = Some g'" "registry_ok g'"
    "\<forall>q. tileAt g' q = map_option (renamed_all ?ks ?cid) (tileAt ?a q)"
    "map_of (cities g') =
       (\<lambda>j. if j = ?cid
            then Some (merged add ?c0' (map (cityOf ?a) (filter (\<lambda>k. k \<noteq> ?cid) ?ks)))
            else if j \<in> set ?ks then None else map_of (cities ?a) j)"
    by blast
  have sp: "spawnCityTile add g team p arg = Some g'"
    using spawnCityTile_attach [OF p adj c0(1)] g'(1) by simp
  have same: "map (cityOf ?a) (filter (\<lambda>k. k \<noteq> ?cid) ?ks) =
      map (cityOf g) (filter (\<lambda>k. k \<noteq> ?cid) ?ks)"
    by (simp add: cityOf_def ma)
  have cities': "map_of (cities g') =
       (\<lambda>j. if j = ?cid
            then Some (merged add ?c0' (map (cityOf g) (filter (\<lambda>k. k \<noteq> ?cid) ?ks)))
            else if j \<in> set ?ks then None else map_of (cities g) j)"
    unfolding g'(4) same by (intro ext) (simp add: ma)
  from sp c0 g'(2,3) cities' show ?thesis
    by simp
qed





section \<open>Three tiles in any order\<close>

lemma no_three_pairwise_adjacent:
  "\<not> (b \<in> set (getAdjacentCells m a) \<and> c \<in> set (getAdjacentCells m a) \<and>
      c \<in> set (getAdjacentCells m b))"
  by (cases a; cases b; cases c) (auto simp: getAdjacentCells_def split: if_splits)

lemma single_key:
  assumes "distinct (map fst xs)" and "\<forall>x \<in> set xs. fst x = k" and "xs \<noteq> []"
  shows "\<exists>v. xs = [(k, v)]"
proof (cases xs)
  case Nil
  with assms show ?thesis by simp
next
  case (Cons x ys)
  show ?thesis
  proof (cases ys)
    case Nil
    with Cons assms(2) show ?thesis by (cases x) auto
  next
    case (Cons y zs)
    with \<open>xs = x # ys\<close> assms(1,2) show ?thesis by auto
  qed
qed

lemma one_city:
  assumes wf: "wf g"
    and tiles: "\<forall>q. map_option tile_team (tileAt g q) =
        (if q \<in> {p1, p2, p3} then Some team else None)"
    and d: "distinct [p1, p2, p3]"
    and conn: "connected3 (gmap g) p1 p2 p3"
  shows "\<exists>k c. cities g = [(k, c)] \<and> city_team c = team \<and> set (citycells c) = {p1, p2, p3} \<and>
     length (citycells c) = 3 \<and>
     (\<forall>q \<in> {p1, p2, p3}. \<exists>t. tileAt g q = Some t \<and> cityid t = k \<and> tile_team t = team)"
proof -
  from wf have ok: "registry_ok g" and share: "adjacent_share g"
    by (simp_all add: wf_def)
  have tile: "\<exists>t. tileAt g q = Some t \<and> tile_team t = team" if "q \<in> {p1, p2, p3}" for q
    using tiles [rule_format, of q] that by (cases "tileAt g q") auto
  have only: "q \<in> {p1, p2, p3}" if "tileAt g q = Some t" for q t
    using tiles [rule_format, of q] that by (auto split: if_splits)
  from tile [of p1] tile [of p2] tile [of p3] obtain t1 t2 t3 where
    t: "tileAt g p1 = Some t1" "tile_team t1 = team" "tileAt g p2 = Some t2" "tile_team t2 = team"
       "tileAt g p3 = Some t3" "tile_team t3 = team"
    by auto
  have eq: "cityid t1 = cityid t2 \<and> cityid t1 = cityid t3"
    using conn unfolding connected3_def
  proof (elim disjE conjE)
    assume "p2 \<in> set (getAdjacentCells (gmap g) p1)" "p3 \<in> set (getAdjacentCells (gmap g) p1)"
    with adjacent_shareD [OF share t(1) t(3)] adjacent_shareD [OF share t(1) t(5)] t
    show ?thesis by simp
  next
    assume "p1 \<in> set (getAdjacentCells (gmap g) p2)" "p3 \<in> set (getAdjacentCells (gmap g) p2)"
    with adjacent_shareD [OF share t(3) t(1)] adjacent_shareD [OF share t(3) t(5)] t
    show ?thesis by simp
  next
    assume "p1 \<in> set (getAdjacentCells (gmap g) p3)" "p2 \<in> set (getAdjacentCells (gmap g) p3)"
    with adjacent_shareD [OF share t(5) t(1)] adjacent_shareD [OF share t(5) t(3)] t
    show ?thesis by simp
  qed
  define k where "k = cityid t1"
  have ids: "cityid u = k" if "tileAt g q = Some u" for q u
    using only [OF that] that t eq by (auto simp: k_def)
  from registry_ok_tile [OF ok t(1)] obtain c where c: "map_of (cities g) k = Some c"
    "city_team c = team" "p1 \<in> set (citycells c)"
    unfolding k_def t(2) [symmetric] by blast
  have keys: "\<forall>x \<in> set (cities g). fst x = k"
  proof
    fix x assume x: "x \<in> set (cities g)"
    with registry_ok_distinct [OF ok] have m: "map_of (cities g) (fst x) = Some (snd x)"
      by simp
    from registry_ok_city(1) [OF ok m] have "hd (citycells (snd x)) \<in> set (citycells (snd x))"
      by simp
    from registry_ok_city(3) [OF ok m this] obtain ct where
      "tileAt g (hd (citycells (snd x))) = Some ct" "cityid ct = fst x"
      by blast
    with ids [of "hd (citycells (snd x))" ct] show "fst x = k" by simp
  qed
  have ne: "cities g \<noteq> []"
    using c(1) by auto
  from single_key [OF registry_ok_distinct [OF ok] keys ne] obtain v where v: "cities g = [(k, v)]"
    by blast
  with c(1) have vc: "v = c" by simp
  have cells: "set (citycells c) = {p1, p2, p3}"
  proof
    show "set (citycells c) \<subseteq> {p1, p2, p3}"
      using registry_ok_city(3) [OF ok c(1)] only by blast
  next
    have "q \<in> set (citycells c)" if "q \<in> {p1, p2, p3}" for q
    proof -
      from tile [OF that] obtain u where u: "tileAt g q = Some u" by blast
      from registry_ok_tile [OF ok u] ids [OF u] c(1) show ?thesis by auto
    qed
    then show "{p1, p2, p3} \<subseteq> set (citycells c)" by blast
  qed
  have "length (citycells c) = card (set (citycells c))"
    using registry_ok_city(2) [OF ok c(1)] by (simp add: distinct_card)
  also have "\<dots> = 3"
    using d by (simp add: cells)
  finally have len: "length (citycells c) = 3" .
  have "\<forall>q \<in> {p1, p2, p3}. \<exists>u. tileAt g q = Some u \<and> cityid u = k \<and> tile_team u = team"
    using tile ids by blast
  with v vc c(2) cells len show ?thesis by blast
qed

lemma last_of_three_has_neighbour:
  assumes conn: "connected3 m p1 p2 p3"
    and inm: "inMap m p1" "inMap m p2" "inMap m p3"
  shows "p1 \<in> set (getAdjacentCells m p3) \<or> p2 \<in> set (getAdjacentCells m p3)"
  using conn adj_sym [OF inm(1) inm(3)] adj_sym [OF inm(2) inm(3)]
  unfolding connected3_def by blast

text \<open>
  C5. No three cells of the grid are pairwise adjacent (\<open>no_three_pairwise_adjacent\<close>), so
  three tiles are mutually adjacent when they hang together, one of them next to the
  other two (\<open>connected3\<close>). On a city-free map three such cells of the map are given city
  tiles of one team, in the order \<open>p1\<close>, \<open>p2\<close>, \<open>p3\<close>; what is assumed of the three cells
  does not depend on their order, so this is every one of the six orders. Between the
  placements the fuel of the cities is set from outside, to any values (\<open>refuel\<close>). All
  three calls return, and in the end the registry holds exactly one city: it is of the
  team, its cells are the three cells, each once, and the three tiles carry its id. The
  cities found at the last placement are all the cities there were, and the fuel of the
  one city is their fuel added up by the addition of the source, the surviving city
  first.
\<close>

theorem three_tiles_one_city:
  assumes free: "cityFree g0"
    and d: "distinct [p1, p2, p3]"
    and inm: "inMap (gmap g0) p1" "inMap (gmap g0) p2" "inMap (gmap g0) p3"
    and conn: "connected3 (gmap g0) p1 p2 p3"
  shows "\<exists>g1 g2 g3 k c.
     spawnCityTile add g0 team p1 None = Some g1 \<and>
     spawnCityTile add (refuel f1 g1) team p2 None = Some g2 \<and>
     spawnCityTile add (refuel f2 g2) team p3 None = Some g3 \<and>
     cities g3 = [(k, c)] \<and> city_team c = team \<and> set (citycells c) = {p1, p2, p3} \<and>
     length (citycells c) = 3 \<and>
     (\<forall>q \<in> {p1, p2, p3}. \<exists>t. tileAt g3 q = Some t \<and> cityid t = k \<and> tile_team t = team) \<and>
     fst ` set (cities (refuel f2 g2)) = set (cityIdsFound (refuel f2 g2) team p3) \<and>
     fuel c = foldl add (fuel (cityOf (refuel f2 g2) k))
       (map (\<lambda>j. fuel (cityOf (refuel f2 g2) j))
          (filter (\<lambda>j. j \<noteq> k) (cityIdsFound (refuel f2 g2) team p3)))"
proof -
  have wf0: "wf g0" by (rule cityFree_wf [OF free])
  from d have ne: "p2 \<noteq> p1" "p3 \<noteq> p1" "p3 \<noteq> p2" by auto
  have none0: "tileAt g0 q = None" for q
    using free by (simp add: cityFree_def)
  from spawn_wf [OF wf0 inm(1) none0, where team = team and add = add] obtain g1 where
    g1: "spawnCityTile add g0 team p1 None = Some g1" "wf g1" "dims g1 = dims g0"
      "\<forall>q. map_option tile_team (tileAt g1 q) = (if q = p1 then Some team else None)"
    by (auto simp: none0)
  let ?h1 = "refuel f1 g1"
  have wfh1: "wf ?h1" by (rule refuel_wf [OF g1(2)])
  have in1: "inMap (gmap ?h1) = inMap (gmap g0)"
    by (rule inMap_of_dims) (simp add: g1(3))
  have free1: "tileAt ?h1 p2 = None"
    using g1(4) [rule_format, of p2] ne by simp
  from spawn_wf [OF wfh1 _ free1, where team = team and add = add] inm(2) in1 obtain g2 where
    g2: "spawnCityTile add ?h1 team p2 None = Some g2" "wf g2" "dims g2 = dims g0"
      "\<forall>q. map_option tile_team (tileAt g2 q) =
         (if q = p2 then Some team else map_option tile_team (tileAt ?h1 q))"
    by (auto simp: g1(3))
  let ?h2 = "refuel f2 g2"
  have wfh2: "wf ?h2" by (rule refuel_wf [OF g2(2)])
  have in2: "inMap (gmap ?h2) = inMap (gmap g0)"
    by (rule inMap_of_dims) (simp add: g2(3))
  have adj2: "getAdjacentCells (gmap ?h2) = getAdjacentCells (gmap g0)"
    by (rule adj_of_dims) (simp add: g2(3))
  have free2: "tileAt ?h2 p3 = None"
    using g2(4) [rule_format, of p3] g1(4) [rule_format, of p3] ne by simp
  have inh2: "inMap (gmap ?h2) p3"
    using inm(3) in2 by simp
  from spawn_wf [OF wfh2 inh2 free2, where team = team and add = add] obtain g3 where
    g3: "spawnCityTile add ?h2 team p3 None = Some g3" "wf g3" "dims g3 = dims g0"
      "\<forall>q. map_option tile_team (tileAt g3 q) =
         (if q = p3 then Some team else map_option tile_team (tileAt ?h2 q))"
    by (auto simp: g2(3))
  have tiles: "\<forall>q. map_option tile_team (tileAt g3 q) =
        (if q \<in> {p1, p2, p3} then Some team else None)"
    using g3(4) g2(4) g1(4) by simp
  have "getAdjacentCells (gmap g3) = getAdjacentCells (gmap g0)"
    by (rule adj_of_dims [OF g3(3)])
  with conn have conn3: "connected3 (gmap g3) p1 p2 p3"
    by (simp add: connected3_def)
  from one_city [OF g3(2) tiles d conn3] obtain k c where
    kc: "cities g3 = [(k, c)]" "city_team c = team" "set (citycells c) = {p1, p2, p3}"
      "length (citycells c) = 3"
      "\<forall>q \<in> {p1, p2, p3}. \<exists>t. tileAt g3 q = Some t \<and> cityid t = k \<and> tile_team t = team"
    by blast
  let ?ks = "cityIdsFound ?h2 team p3"
  let ?cid = "firstCityId ?h2 team p3"
  have ok2: "registry_ok ?h2"
    using wfh2 by (simp add: wf_def)
  have team12: "\<exists>t. tileAt ?h2 q = Some t \<and> tile_team t = team" if "q = p1 \<or> q = p2" for q
    using g2(4) [rule_format, of q] g1(4) [rule_format, of q] that
    by (cases "tileAt g2 q") (auto split: if_splits)
  from last_of_three_has_neighbour [OF conn inm]
  have adj: "adjSameTeamCityTiles ?h2 team p3 \<noteq> []"
  proof
    assume "p1 \<in> set (getAdjacentCells (gmap g0) p3)"
    with team12 [of p1] have "p1 \<in> set (adjSameTeamCityTiles ?h2 team p3)"
      unfolding adjSame_iff adj2 by simp
    then show ?thesis by auto
  next
    assume "p2 \<in> set (getAdjacentCells (gmap g0) p3)"
    with team12 [of p2] have "p2 \<in> set (adjSameTeamCityTiles ?h2 team p3)"
      unfolding adjSame_iff adj2 by simp
    then show ?thesis by auto
  qed
  from spawn_attach_registry [OF ok2 inh2 free2 adj, where arg = None and add = add] g3(1)
  obtain c0 where c0: "map_of (cities ?h2) ?cid = Some c0"
    and m3: "map_of (cities g3) =
       (\<lambda>j. if j = ?cid
            then Some (merged add (c0\<lparr>citycells := citycells c0 @ [p3]\<rparr>)
              (map (cityOf ?h2) (filter (\<lambda>k. k \<noteq> ?cid) ?ks)))
            else if j \<in> set ?ks then None else map_of (cities ?h2) j)"
    by auto
  have m3k: "map_of (cities g3) = (\<lambda>j. if j = k then Some c else None)"
    by (rule ext) (simp add: kc(1))
  have kcid: "k = ?cid"
    using m3 m3k by (metis option.distinct(1))
  have cm: "c = merged add (c0\<lparr>citycells := citycells c0 @ [p3]\<rparr>)
              (map (cityOf ?h2) (filter (\<lambda>j. j \<noteq> k) ?ks))"
    using m3 m3k kcid by (metis option.inject)
  have co: "cityOf ?h2 k = c0"
    by (simp add: cityOf_def kcid c0)
  have fuel: "fuel c = foldl add (fuel (cityOf ?h2 k))
       (map (\<lambda>j. fuel (cityOf ?h2 j)) (filter (\<lambda>j. j \<noteq> k) ?ks))"
    by (simp add: cm merged_def co comp_def)
  have cid_in: "?cid \<in> set ?ks"
  proof -
    from adj have "hd (adjSameTeamCityTiles ?h2 team p3) \<in> set (adjSameTeamCityTiles ?h2 team p3)"
      by simp
    moreover from this obtain t0 where "tileAt ?h2 (hd (adjSameTeamCityTiles ?h2 team p3)) = Some t0"
      by (auto simp: adjSame_iff)
    ultimately show ?thesis
      unfolding cityIdsFound_iff firstCityId_def by (metis option.sel)
  qed
  have keys: "fst ` set (cities ?h2) = set ?ks"
  proof (intro equalityI subsetI)
    fix j assume "j \<in> fst ` set (cities ?h2)"
    then have j: "map_of (cities ?h2) j \<noteq> None" by (simp add: keys_map_of)
    show "j \<in> set ?ks"
    proof (rule ccontr)
      assume n: "j \<notin> set ?ks"
      with cid_in have "j \<noteq> ?cid" by auto
      with n m3 have "map_of (cities g3) j = map_of (cities ?h2) j" by simp
      with j m3k have "j = k" by (simp split: if_splits)
      with kcid cid_in n show False by simp
    qed
  next
    fix j assume "j \<in> set ?ks"
    then obtain q ct where "tileAt ?h2 q = Some ct" "cityid ct = j"
      unfolding cityIdsFound_iff by blast
    with registry_ok_tile [OF ok2 this(1)] have "map_of (cities ?h2) j \<noteq> None"
      by auto
    then show "j \<in> fst ` set (cities ?h2)" by (simp add: keys_map_of)
  qed
  from g1(1) g2(1) g3(1) kc keys fuel show ?thesis
    by (intro exI [of _ g1] exI [of _ g2] exI [of _ g3] exI [of _ k] exI [of _ c]) simp
qed

lemma threeTiles_facts:
  "connected3 (gmap (newGame 3 1)) (0, 0) (2, 0) (1, 0)"
  "inMap (gmap (newGame 3 1)) (0, 0)" "inMap (gmap (newGame 3 1)) (2, 0)"
  "inMap (gmap (newGame 3 1)) (1, 0)"
  by code_simp+

lemma threeTiles_run:
  "cities (the (spawnCityTile (+) (refuel (\<lambda>k. if k = ''c_1'' then 7 else 5)
      (the (spawnCityTile (+) (refuel (\<lambda>k. 7) (the (spawnCityTile (+) (newGame 3 1) A (0, 0) None)))
         A (2, 0) None))) A (1, 0) None)) =
    [(''c_2'', \<lparr>city_team = A, fuel = 12, citycells = [(2, 0), (1, 0), (0, 0)]\<rparr>)]"
  by code_simp

theorem three_tiles_one_city_witness:
  "cityFree (newGame 3 1) \<and> connected3 (gmap (newGame 3 1)) (0, 0) (2, 0) (1, 0) \<and>
   inMap (gmap (newGame 3 1)) (0, 0) \<and> inMap (gmap (newGame 3 1)) (2, 0) \<and>
   inMap (gmap (newGame 3 1)) (1, 0) \<and>
   (\<exists>g1 g2 g3 c.
      spawnCityTile (+) (newGame 3 1) A (0, 0) None = Some g1 \<and>
      spawnCityTile (+) (refuel (\<lambda>k. 7) g1) A (2, 0) None = Some g2 \<and>
      spawnCityTile (+) (refuel (\<lambda>k. if k = ''c_1'' then 7 else 5) g2) A (1, 0) None = Some g3 \<and>
      cities g3 = [(''c_2'', c)] \<and> set (citycells c) = {(0, 0), (2, 0), (1, 0)} \<and>
      fuel c = 12)"
proof -
  have d: "distinct [(0, 0), (2, 0), (1, 0) :: Position]"
    by simp
  from three_tiles_one_city [OF newGame_cityFree d threeTiles_facts(2,3,4,1),
      where team = A and add = "(+)" and ?f1.0 = "\<lambda>k. 7"
        and ?f2.0 = "\<lambda>k. if k = ''c_1'' then 7 else 5"]
  obtain g1 g2 g3 k c where r:
    "spawnCityTile (+) (newGame 3 1) A (0, 0) None = Some g1"
    "spawnCityTile (+) (refuel (\<lambda>k. 7) g1) A (2, 0) None = Some g2"
    "spawnCityTile (+) (refuel (\<lambda>k. if k = ''c_1'' then 7 else 5) g2) A (1, 0) None = Some g3"
    "cities g3 = [(k, c)]" "set (citycells c) = {(0, 0), (2, 0), (1, 0)}"
    by (elim exE conjE) (rule that)
  from r(1,2,3) threeTiles_run have c3: "cities g3 =
      [(''c_2'', \<lparr>city_team = A, fuel = 12, citycells = [(2, 0), (1, 0), (0, 0)]\<rparr>)]"
    by simp
  with r(4) have "k = ''c_2''" "fuel c = 12"
    by auto
  with r have "\<exists>g1 g2 g3 c.
      spawnCityTile (+) (newGame 3 1) A (0, 0) None = Some g1 \<and>
      spawnCityTile (+) (refuel (\<lambda>k. 7) g1) A (2, 0) None = Some g2 \<and>
      spawnCityTile (+) (refuel (\<lambda>k. if k = ''c_1'' then 7 else 5) g2) A (1, 0) None = Some g3 \<and>
      cities g3 = [(''c_2'', c)] \<and> set (citycells c) = {(0, 0), (2, 0), (1, 0)} \<and>
      fuel c = 12"
    by (intro exI [of _ g1] exI [of _ g2] exI [of _ g3] exI [of _ c]) simp
  with newGame_cityFree threeTiles_facts show ?thesis
    by simp
qed

section \<open>Properties of the movement\<close>

lemma map_of_addAction:
  "map_of (addAction a m) q =
     (if q = newcell a then Some ((case map_of m q of None \<Rightarrow> [] | Some l \<Rightarrow> l) @ [a])
      else map_of m q)"
  by (simp add: addAction_def update_conv' split: option.splits)

lemma distinct_addAction: "distinct (map fst m) \<Longrightarrow> distinct (map fst (addAction a m))"
  by (simp add: addAction_def distinct_update split: option.splits)

lemma map_of_fold_addAction:
  "map_of (fold addAction acts m) p =
     (case map_of m p of
        None \<Rightarrow> if actionsTo p acts = [] then None else Some (actionsTo p acts)
      | Some l \<Rightarrow> Some (l @ actionsTo p acts))"
proof (induction acts arbitrary: m)
  case Nil
  then show ?case by (simp add: actionsTo_def split: option.splits)
next
  case (Cons a acts)
  show ?case
    by (simp add: Cons.IH map_of_addAction actionsTo_def split: option.splits)
qed

lemma distinct_fold_addAction:
  "distinct (map fst m) \<Longrightarrow> distinct (map fst (fold addAction acts m))"
  by (induction acts arbitrary: m) (simp_all add: distinct_addAction)

lemma map_of_cells:
  "map_of (cellsToActionsToThere acts) p =
     (if actionsTo p acts = [] then None else Some (actionsTo p acts))"
  by (simp add: cellsToActionsToThere_def map_of_fold_addAction)

lemma distinct_cells: "distinct (map fst (cellsToActionsToThere acts))"
  by (simp add: cellsToActionsToThere_def distinct_fold_addAction)

lemma actionsTo_Nil_iff: "actionsTo p acts = [] \<longleftrightarrow> p \<notin> newcell ` set acts"
  by (auto simp: actionsTo_def filter_empty_conv)

lemma keys_cells: "fst ` set (cellsToActionsToThere acts) = newcell ` set acts"
proof -
  have "p \<in> fst ` set (cellsToActionsToThere acts) \<longleftrightarrow> p \<in> newcell ` set acts" for p
    using map_of_cells [of acts p] actionsTo_Nil_iff [of p acts]
    by (simp add: keys_map_of)
  then show ?thesis by blast
qed

lemma entries_cells:
  "(p, l) \<in> set (cellsToActionsToThere acts) \<longleftrightarrow> l = actionsTo p acts \<and> l \<noteq> []"
proof -
  have "(p, l) \<in> set (cellsToActionsToThere acts) \<longleftrightarrow>
      map_of (cellsToActionsToThere acts) p = Some l"
    by (simp add: map_of_eq_Some_iff [OF distinct_cells])
  also have "\<dots> \<longleftrightarrow> l = actionsTo p acts \<and> l \<noteq> []"
    unfolding map_of_cells by auto
  finally show ?thesis .
qed

lemma map_of_restrict:
  "map_of (AList.restrict K m) p = (if p \<in> K then map_of m p else None)"
  by (induction m) (auto simp: AList.restrict_eq case_prod_beta)

lemma delete_restrict: "AList.delete k (AList.restrict K m) = AList.restrict (K - {k}) m"
  by (induction m) (auto simp: AList.restrict_eq AList.delete_eq case_prod_beta)

lemma restrict_cong:
  assumes "K \<inter> fst ` set m = K' \<inter> fst ` set m"
  shows "AList.restrict K m = AList.restrict K' m"
  unfolding AList.restrict_eq
proof (rule filter_cong [OF refl])
  fix x assume "x \<in> set m"
  then have "fst x \<in> fst ` set m" by simp
  with assms have "fst x \<in> K \<longleftrightarrow> fst x \<in> K'" by blast
  then show "(case x of (k, v) \<Rightarrow> k \<in> K) = (case x of (k, v) \<Rightarrow> k \<in> K')"
    by (simp add: case_prod_beta)
qed

lemma restrict_UNIV: "AList.restrict UNIV m = m"
  by (simp add: AList.restrict_eq)

section \<open>The loops remove the entries of the rejected cells\<close>

lemma closed_under_mono:
  "closed_under g acts pend K \<Longrightarrow> set pend \<subseteq> set pend' \<Longrightarrow> closed_under g acts pend' K"
  unfolding closed_under_def by blast

lemma revert_lemma:
  "\<forall>a \<in> set acts. movable g a \<Longrightarrow>
   m = AList.restrict K (cellsToActionsToThere acts) \<Longrightarrow> set pend \<subseteq> set acts \<Longrightarrow>
   \<forall>a \<in> set pend. newcell a \<in> rejectedCells g acts \<Longrightarrow> - K \<subseteq> rejectedCells g acts \<Longrightarrow>
   closed_under g acts pend K \<Longrightarrow>
   \<exists>K'. revertAction g pend m = Some (AList.restrict K' (cellsToActionsToThere acts)) \<and>
      K' \<subseteq> K \<and> - K' \<subseteq> rejectedCells g acts \<and> closed_under g acts [] K' \<and>
      reverted g pend K'"
proof (induction g pend m arbitrary: K rule: revertAction.induct)
  case (1 g m)
  then show ?case
    by (intro exI [of _ K]) (simp add: reverted_def)
next
  case (2 g action pending m)
  let ?R = "rejectedCells g acts"
  let ?M = "cellsToActionsToThere acts"
  note mov = "2.prems"(1) and m = "2.prems"(2) and sub = "2.prems"(3) and rej = "2.prems"(4)
    and sound = "2.prems"(5) and cl = "2.prems"(6)
  from sub have a: "action \<in> set acts" and sub': "set pending \<subseteq> set acts"
    by simp_all
  from rej have ra: "newcell action \<in> ?R" and rej': "\<forall>a \<in> set pending. newcell a \<in> ?R"
    by simp_all
  from mov a have "movable g action" by blast
  then obtain u where u: "getUnit g (move_team action) (move_unitid action) = Some u"
    and inm: "inMap (gmap g) (unit_pos u)"
    by (auto simp: movable_def split: option.splits)
  define orig where "orig = unit_pos u"
  have oa: "origin g action = orig"
    by (simp add: origin_def u orig_def)
  have inm': "\<not> \<not> inMap (gmap g) orig"
    using inm by (simp add: orig_def)
  show ?case
  proof (cases "isCityTile (getCell (gmap g) orig)")
    case True
    have step: "revertAction g (action # pending) m = revertAction g pending m"
      using u inm True by (simp add: orig_def)
    have cl': "closed_under g acts pending K"
      unfolding closed_under_def
    proof (intro ballI impI)
      fix b assume b: "b \<in> set acts" "newcell b \<notin> K"
      with cl have "b \<in> set (action # pending) \<or> cityCell g (origin g b) \<or> origin g b \<notin> K"
        unfolding closed_under_def by blast
      then show "b \<in> set pending \<or> cityCell g (origin g b) \<or> origin g b \<notin> K"
        using True oa by (auto simp: cityCell_def)
    qed
    from "2.IH"(1) [OF u orig_def inm' True mov m sub' rej' sound cl']
    obtain K' where K': "revertAction g pending m = Some (AList.restrict K' ?M)"
      "K' \<subseteq> K" "- K' \<subseteq> ?R" "closed_under g acts [] K'" "reverted g pending K'"
      by blast
    have "reverted g (action # pending) K'"
      using K'(5) True oa by (simp add: reverted_def cityCell_def)
    with K' step show ?thesis
      by (intro exI [of _ K']) simp
  next
    case False
    then have nc: "\<not> cityCell g (origin g action)"
      by (simp add: cityCell_def oa)
    have oR: "orig \<in> ?R"
      using rejectedCells.backward [OF a ra nc] oa by simp
    have sound': "- (K - {orig}) \<subseteq> ?R"
      using sound oR by auto
    have dm: "AList.delete orig m = AList.restrict (K - {orig}) ?M"
      by (simp add: m delete_restrict)
    show ?thesis
    proof (cases "map_of m orig")
      case None
      have step: "revertAction g (action # pending) m = revertAction g pending (AList.delete orig m)"
        using u inm False None by (simp add: orig_def)
      have nokey: "orig \<notin> K \<or> actionsTo orig acts = []"
        using None by (simp add: m map_of_restrict map_of_cells split: if_splits)
      have cl': "closed_under g acts pending (K - {orig})"
        unfolding closed_under_def
      proof (intro ballI impI)
        fix b assume b: "b \<in> set acts" "newcell b \<notin> K - {orig}"
        have "newcell b \<notin> K"
        proof (cases "newcell b = orig")
          case True
          with b(1) have "actionsTo orig acts \<noteq> []"
            by (auto simp: actionsTo_def filter_empty_conv)
          with nokey True show ?thesis by simp
        next
          case False
          with b(2) show ?thesis by simp
        qed
        with cl b(1) have "b \<in> set (action # pending) \<or> cityCell g (origin g b) \<or> origin g b \<notin> K"
          unfolding closed_under_def by blast
        then show "b \<in> set pending \<or> cityCell g (origin g b) \<or> origin g b \<notin> K - {orig}"
          using oa by auto
      qed
      from "2.IH"(2) [OF u orig_def inm' False None mov dm sub' rej' sound' cl']
      obtain K' where K': "revertAction g pending (AList.delete orig m) = Some (AList.restrict K' ?M)"
        "K' \<subseteq> K - {orig}" "- K' \<subseteq> ?R" "closed_under g acts [] K'" "reverted g pending K'"
        by blast
      have "reverted g (action # pending) K'"
        using K'(2,5) oa by (auto simp: reverted_def)
      with K' step show ?thesis
        by (intro exI [of _ K']) auto
    next
      case (Some colliding)
      have step: "revertAction g (action # pending) m =
          revertAction g (colliding @ pending) (AList.delete orig m)"
        using u inm False Some by (simp add: orig_def)
      from Some have col: "colliding = actionsTo orig acts" and oK: "orig \<in> K"
        by (simp_all add: m map_of_restrict map_of_cells split: if_splits)
      have sub2: "set (colliding @ pending) \<subseteq> set acts"
        using sub' by (auto simp: col actionsTo_def)
      have rej2: "\<forall>a \<in> set (colliding @ pending). newcell a \<in> ?R"
        using rej' oR by (auto simp: col actionsTo_def)
      have cl': "closed_under g acts (colliding @ pending) (K - {orig})"
        unfolding closed_under_def
      proof (intro ballI impI)
        fix b assume b: "b \<in> set acts" "newcell b \<notin> K - {orig}"
        show "b \<in> set (colliding @ pending) \<or> cityCell g (origin g b) \<or> origin g b \<notin> K - {orig}"
        proof (cases "newcell b = orig")
          case True
          with b(1) have "b \<in> set colliding"
            by (simp add: col actionsTo_def)
          then show ?thesis by simp
        next
          case False
          with b(2) have "newcell b \<notin> K" by simp
          with cl b(1) have "b \<in> set (action # pending) \<or> cityCell g (origin g b) \<or>
              origin g b \<notin> K"
            unfolding closed_under_def by blast
          then show ?thesis using oa by auto
        qed
      qed
      from "2.IH"(3) [OF u orig_def inm' False Some mov dm sub2 rej2 sound' cl']
      obtain K' where K': "revertAction g (colliding @ pending) (AList.delete orig m) =
          Some (AList.restrict K' ?M)"
        "K' \<subseteq> K - {orig}" "- K' \<subseteq> ?R" "closed_under g acts [] K'"
        "reverted g (colliding @ pending) K'"
        by blast
      have "reverted g (action # pending) K'"
        using K'(2,5) oa by (auto simp: reverted_def)
      with K' step show ?thesis
        by (intro exI [of _ K']) auto
    qed
  qed
qed

lemma actionsToRevert_eq:
  assumes "actionsTo c acts \<noteq> []"
  shows "actionsToRevert g (movingUnits acts) c (actionsTo c acts) =
     (if bump g acts c then actionsTo c acts else [])"
proof -
  have one: "[xs ! 0] = xs" if "length xs = 1" for xs :: "MoveAction list"
    using that by (cases xs) auto
  from assms have "length (actionsTo c acts) = 1 \<or> length (actionsTo c acts) > 1"
    by (cases "actionsTo c acts") (auto simp: less_Suc_eq_0_disj)
  then show ?thesis
    by (auto simp: actionsToRevert_def bump_def cityCell_def one)
qed

lemma fold_delete_same:
  "\<forall>a \<in> set l. newcell a = c \<Longrightarrow> l \<noteq> [] \<Longrightarrow>
     fold (\<lambda>a. AList.delete (newcell a)) l (AList.restrict K M) = AList.restrict (K - {c}) M"
proof (induction l arbitrary: K)
  case Nil
  then show ?case by simp
next
  case (Cons a l)
  from Cons.prems have a: "newcell a = c" and l: "\<forall>a \<in> set l. newcell a = c"
    by simp_all
  have step: "fold (\<lambda>a. AList.delete (newcell a)) (a # l) (AList.restrict K M) =
      fold (\<lambda>a. AList.delete (newcell a)) l (AList.restrict (K - {c}) M)"
    by (simp only: fold_simps a delete_restrict)
  show ?case
  proof (cases "l = []")
    case True
    with step show ?thesis by simp
  next
    case False
    have "K - {c} - {c} = K - {c}" by blast
    with Cons.IH [OF l False, of "K - {c}"] step show ?thesis
      by simp
  qed
qed

lemma visitCell_lemma:
  assumes mov: "\<forall>a \<in> set acts. movable g a"
    and m: "m = AList.restrict K (cellsToActionsToThere acts)"
    and sound: "- K \<subseteq> rejectedCells g acts"
    and cl: "closed_under g acts [] K"
  shows "\<exists>K'. visitCell g (movingUnits acts) c m = Some (AList.restrict K' (cellsToActionsToThere acts)) \<and>
      K' \<subseteq> K \<and> - K' \<subseteq> rejectedCells g acts \<and> closed_under g acts [] K' \<and>
      (bump g acts c \<longrightarrow> c \<notin> K')"
proof (cases "map_of m c")
  case None
  have "c \<notin> K" if "bump g acts c"
  proof -
    from that have "actionsTo c acts \<noteq> []"
      by (auto simp: bump_def)
    with None show ?thesis
      by (simp add: m map_of_restrict map_of_cells split: if_splits)
  qed
  with None m sound cl show ?thesis
    by (intro exI [of _ K]) (simp add: visitCell_def)
next
  case (Some cur)
  let ?R = "rejectedCells g acts"
  let ?M = "cellsToActionsToThere acts"
  from Some have cur: "cur = actionsTo c acts" "cur \<noteq> []" and cK: "c \<in> K"
    by (simp_all add: m map_of_restrict map_of_cells split: if_splits)
  have rev: "actionsToRevert g (movingUnits acts) c cur = (if bump g acts c then cur else [])"
    using cur actionsToRevert_eq [of c acts g] by simp
  show ?thesis
  proof (cases "bump g acts c")
    case False
    then have "visitCell g (movingUnits acts) c m = Some m"
      by (simp add: visitCell_def Some rev)
    with False m sound cl show ?thesis
      by (intro exI [of _ K]) simp
  next
    case True
    then have cR: "c \<in> ?R" by (rule rejectedCells.direct)
    have sub: "set cur \<subseteq> set acts" and tgt: "\<forall>a \<in> set cur. newcell a = c"
      by (auto simp: cur actionsTo_def)
    from tgt cR have rej: "\<forall>a \<in> set cur. newcell a \<in> ?R" by simp
    have cl0: "closed_under g acts cur K"
      by (rule closed_under_mono [OF cl]) simp
    from revert_lemma [OF mov m sub rej sound cl0]
    obtain K1 where K1: "revertAction g cur m = Some (AList.restrict K1 ?M)"
      "K1 \<subseteq> K" "- K1 \<subseteq> ?R" "closed_under g acts [] K1" "reverted g cur K1"
      by blast
    have v: "visitCell g (movingUnits acts) c m = Some (AList.restrict (K1 - {c}) ?M)"
      using True by (simp add: visitCell_def Some rev K1(1) fold_delete_same [OF tgt cur(2)])
    have cl': "closed_under g acts [] (K1 - {c})"
      unfolding closed_under_def
    proof (intro ballI impI)
      fix b assume b: "b \<in> set acts" "newcell b \<notin> K1 - {c}"
      have "cityCell g (origin g b) \<or> origin g b \<notin> K1"
      proof (cases "newcell b = c")
        case True
        with b(1) have "b \<in> set cur" by (simp add: cur actionsTo_def)
        with K1(5) show ?thesis by (simp add: reverted_def)
      next
        case False
        with b(2) have "newcell b \<notin> K1" by simp
        with K1(4) b(1) show ?thesis by (auto simp: closed_under_def)
      qed
      then show "b \<in> set [] \<or> cityCell g (origin g b) \<or> origin g b \<notin> K1 - {c}"
        by auto
    qed
    have "- (K1 - {c}) \<subseteq> ?R"
      using K1(3) cR by auto
    with v K1(2) cl' show ?thesis
      by (intro exI [of _ "K1 - {c}"]) auto
  qed
qed

lemma visitCells_lemma:
  assumes mov: "\<forall>a \<in> set acts. movable g a"
  shows "m = AList.restrict K (cellsToActionsToThere acts) \<Longrightarrow> - K \<subseteq> rejectedCells g acts \<Longrightarrow>
     closed_under g acts [] K \<Longrightarrow> \<forall>p \<in> V. bump g acts p \<longrightarrow> p \<notin> K \<Longrightarrow>
     \<exists>K'. visitCells g (movingUnits acts) cs m = Some (AList.restrict K' (cellsToActionsToThere acts)) \<and>
       - K' \<subseteq> rejectedCells g acts \<and> closed_under g acts [] K' \<and>
       (\<forall>p \<in> V \<union> set cs. bump g acts p \<longrightarrow> p \<notin> K')"
proof (induction cs arbitrary: m K V)
  case Nil
  then show ?case by (intro exI [of _ K]) simp
next
  case (Cons c cs)
  from visitCell_lemma [OF mov Cons.prems(1,2,3), of c]
  obtain K1 where K1: "visitCell g (movingUnits acts) c m =
      Some (AList.restrict K1 (cellsToActionsToThere acts))"
    "K1 \<subseteq> K" "- K1 \<subseteq> rejectedCells g acts" "closed_under g acts [] K1"
    "bump g acts c \<longrightarrow> c \<notin> K1"
    by blast
  have V1: "\<forall>p \<in> insert c V. bump g acts p \<longrightarrow> p \<notin> K1"
    using Cons.prems(4) K1(2,5) by blast
  from Cons.IH [OF refl K1(3,4) V1]
  obtain K' where K': "visitCells g (movingUnits acts) cs
         (AList.restrict K1 (cellsToActionsToThere acts)) =
      Some (AList.restrict K' (cellsToActionsToThere acts))"
    "- K' \<subseteq> rejectedCells g acts" "closed_under g acts [] K'"
    "\<forall>p \<in> insert c V \<union> set cs. bump g acts p \<longrightarrow> p \<notin> K'"
    by blast
  from K1(1) K' show ?case
    by (intro exI [of _ K']) simp
qed

lemma rejected_not_kept:
  assumes cl: "closed_under g acts [] K"
    and vis: "\<forall>p \<in> newcell ` set acts. bump g acts p \<longrightarrow> p \<notin> K"
    and p: "p \<in> rejectedCells g acts"
  shows "p \<in> newcell ` set acts \<longrightarrow> p \<notin> K"
  using p
proof (induction rule: rejectedCells.induct)
  case (direct p)
  with vis show ?case by blast
next
  case (backward a)
  from backward.IH backward.hyps(1) have "newcell a \<notin> K" by simp
  with cl backward.hyps(1,3) show ?case
    by (auto simp: closed_under_def)
qed

lemma handleMovementActions_result:
  assumes mov: "\<forall>a \<in> set acts. movable g a"
  shows "handleMovementActions g acts =
     Some (concat (map snd
       (AList.restrict (- rejectedCells g acts) (cellsToActionsToThere acts))))"
proof -
  let ?M = "cellsToActionsToThere acts"
  let ?R = "rejectedCells g acts"
  have m: "?M = AList.restrict UNIV ?M" by (simp add: restrict_UNIV)
  have cl: "closed_under g acts [] UNIV" by (simp add: closed_under_def)
  from visitCells_lemma [OF mov m _ cl, of "{}" "map fst ?M"]
  obtain K' where K': "visitCells g (movingUnits acts) (map fst ?M) ?M = Some (AList.restrict K' ?M)"
    "- K' \<subseteq> ?R" "closed_under g acts [] K'"
    "\<forall>p \<in> newcell ` set acts. bump g acts p \<longrightarrow> p \<notin> K'"
    by (auto simp: keys_cells)
  have "K' \<inter> fst ` set ?M = (- ?R) \<inter> fst ` set ?M"
  proof (intro equalityI subsetI)
    fix p assume p: "p \<in> K' \<inter> fst ` set ?M"
    then have "p \<notin> ?R"
      using rejected_not_kept [OF K'(3,4), of p] by (auto simp: keys_cells)
    with p show "p \<in> (- ?R) \<inter> fst ` set ?M" by simp
  next
    fix p assume "p \<in> (- ?R) \<inter> fst ` set ?M"
    with K'(2) show "p \<in> K' \<inter> fst ` set ?M" by auto
  qed
  then have "AList.restrict K' ?M = AList.restrict (- ?R) ?M"
    by (rule restrict_cong)
  with K'(1) show ?thesis
    by (simp add: handleMovementActions_def Let_def)
qed

lemma set_concat_restrict:
  "set (concat (map snd (AList.restrict K (cellsToActionsToThere acts)))) =
     {a \<in> set acts. newcell a \<in> K}"
proof -
  have "x \<in> set (concat (map snd (AList.restrict K (cellsToActionsToThere acts)))) \<longleftrightarrow>
      x \<in> set acts \<and> newcell x \<in> K" for x
  proof
    assume "x \<in> set (concat (map snd (AList.restrict K (cellsToActionsToThere acts))))"
    then obtain e where e: "e \<in> set (AList.restrict K (cellsToActionsToThere acts))" "x \<in> set (snd e)"
      by auto
    then have "(fst e, snd e) \<in> set (cellsToActionsToThere acts)" and k: "fst e \<in> K"
      by (simp_all add: AList.restrict_eq case_prod_beta)
    then have "snd e = actionsTo (fst e) acts"
      by (simp only: entries_cells)
    with e(2) k show "x \<in> set acts \<and> newcell x \<in> K"
      by (simp add: actionsTo_def)
  next
    assume x: "x \<in> set acts \<and> newcell x \<in> K"
    then have "x \<in> set (actionsTo (newcell x) acts)"
      by (simp add: actionsTo_def)
    moreover from this have "(newcell x, actionsTo (newcell x) acts) \<in> set (cellsToActionsToThere acts)"
      by (auto simp: entries_cells)
    with x have "(newcell x, actionsTo (newcell x) acts) \<in>
        set (AList.restrict K (cellsToActionsToThere acts))"
      by (simp add: AList.restrict_eq)
    ultimately show "x \<in> set (concat (map snd (AList.restrict K (cellsToActionsToThere acts))))"
      by force
  qed
  then show ?thesis by blast
qed

lemma mset_update_Some:
  "map_of m k = Some cur \<Longrightarrow>
     mset (concat (map snd (AList.update k (cur @ [a]) m))) = mset (concat (map snd m)) + {#a#}"
  by (induction m) (auto split: if_splits)

lemma mset_update_None:
  "map_of m k = None \<Longrightarrow>
     mset (concat (map snd (AList.update k [a] m))) = mset (concat (map snd m)) + {#a#}"
  by (induction m) (auto split: if_splits)

lemma mset_addAction:
  "mset (concat (map snd (addAction a m))) = mset (concat (map snd m)) + {#a#}"
  by (cases "map_of m (newcell a)") (simp_all add: addAction_def mset_update_Some mset_update_None)

lemma mset_fold_addAction:
  "mset (concat (map snd (fold addAction acts m))) = mset (concat (map snd m)) + mset acts"
  by (induction acts arbitrary: m) (simp_all add: mset_addAction)

lemma mset_cells: "mset (concat (map snd (cellsToActionsToThere acts))) = mset acts"
  by (simp add: cellsToActionsToThere_def mset_fold_addAction)

lemma mset_concat_restrict_gen:
  "\<forall>e \<in> set M. \<forall>a \<in> set (snd e). newcell a = fst e \<Longrightarrow>
     mset (concat (map snd (AList.restrict K M))) =
       filter_mset (\<lambda>a. newcell a \<in> K) (mset (concat (map snd M)))"
proof (induction M)
  case Nil
  then show ?case by (simp add: AList.restrict_eq)
next
  case (Cons e M)
  from Cons.prems have e: "\<forall>a \<in> set (snd e). newcell a = fst e"
    and M: "\<forall>e \<in> set M. \<forall>a \<in> set (snd e). newcell a = fst e"
    by simp_all
  have f: "filter (\<lambda>a. newcell a \<in> K) (snd e) = (if fst e \<in> K then snd e else [])"
    using e by (auto simp: filter_empty_conv intro: filter_True)
  have "filter_mset (\<lambda>a. newcell a \<in> K) (mset (snd e)) = (if fst e \<in> K then mset (snd e) else {#})"
    unfolding mset_filter [symmetric] f by simp
  with Cons.IH [OF M] show ?case
    by (simp add: AList.restrict_eq case_prod_beta)
qed

lemma mset_concat_restrict:
  "mset (concat (map snd (AList.restrict K (cellsToActionsToThere acts)))) =
     filter_mset (\<lambda>a. newcell a \<in> K) (mset acts)"
proof -
  have "\<forall>e \<in> set (cellsToActionsToThere acts). \<forall>a \<in> set (snd e). newcell a = fst e"
  proof (intro ballI)
    fix e a assume "e \<in> set (cellsToActionsToThere acts)" "a \<in> set (snd e)"
    then have "(fst e, snd e) \<in> set (cellsToActionsToThere acts)" by simp
    then have "snd e = actionsTo (fst e) acts"
      by (simp only: entries_cells)
    with \<open>a \<in> set (snd e)\<close> show "newcell a = fst e"
      by (simp add: actionsTo_def)
  qed
  from mset_concat_restrict_gen [OF this] show ?thesis
    by (simp add: mset_cells)
qed

lemma actionsTo_perm:
  "mset acts' = mset acts \<Longrightarrow> length (actionsTo p acts') = length (actionsTo p acts)"
proof -
  assume "mset acts' = mset acts"
  then have "mset (actionsTo p acts') = mset (actionsTo p acts)"
    by (simp add: actionsTo_def)
  then show ?thesis by (rule mset_eq_length)
qed

lemma bump_perm: "mset acts' = mset acts \<Longrightarrow> bump g acts' p = bump g acts p"
  using actionsTo_perm [of acts' acts p] mset_eq_setD [of acts' acts]
  by (simp add: bump_def movingUnits_def)

lemma rejected_perm_sub:
  assumes "mset acts' = mset acts" and "p \<in> rejectedCells g acts"
  shows "p \<in> rejectedCells g acts'"
  using assms(2)
proof (induction rule: rejectedCells.induct)
  case (direct p)
  with bump_perm [OF assms(1), of g p] have "bump g acts' p" by simp
  then show ?case by (rule rejectedCells.direct)
next
  case (backward a)
  from backward.hyps(1) mset_eq_setD [OF assms(1)] have "a \<in> set acts'" by simp
  from rejectedCells.backward [OF this backward.IH backward.hyps(3)] show ?case .
qed

lemma rejected_perm:
  "mset acts' = mset acts \<Longrightarrow> rejectedCells g acts' = rejectedCells g acts"
  using rejected_perm_sub [of acts' acts _ g] rejected_perm_sub [of acts acts' _ g]
  by auto

lemma rowGame_movable:
  "\<forall>a \<in> set [moveTo A ''u_3'' NORTH (0, 0), moveTo A ''u_1'' EAST (1, 0)]. movable rowGame a"
  by code_simp

lemma rowGame_run:
  "handleMovementActions rowGame
     [moveTo A ''u_3'' NORTH (0, 0), moveTo A ''u_1'' EAST (1, 0)] =
   Some [moveTo A ''u_3'' NORTH (0, 0), moveTo A ''u_1'' EAST (1, 0)]"
  "handleMovementActions rowGame
     [moveTo A ''u_1'' EAST (1, 0), moveTo A ''u_3'' NORTH (0, 0)] =
   Some [moveTo A ''u_1'' EAST (1, 0), moveTo A ''u_3'' NORTH (0, 0)]"
  by code_simp+

text \<open>
  C2. The actions of the batch are such that the unit of each is registered with its
  team, as validation makes sure, and stands on the map. Then \<open>handleMovementActions\<close>
  returns, for the batch and for every permutation of it, and the two results hold the
  same actions, each as often as the other. The accepted actions are the actions of the
  batch that do not go to a rejected cell, and the rejected cells do not depend on the
  order of the batch.
\<close>

theorem movement_confluent:
  assumes "mset acts' = mset acts" and "\<forall>a \<in> set acts. movable g a"
  shows "\<exists>res res'. handleMovementActions g acts = Some res \<and>
     handleMovementActions g acts' = Some res' \<and> mset res' = mset res \<and> set res' = set res \<and>
     set res = {a \<in> set acts. newcell a \<notin> rejectedCells g acts}"
proof -
  have mov': "\<forall>a \<in> set acts'. movable g a"
    using assms mset_eq_setD by blast
  let ?res = "concat (map snd (AList.restrict (- rejectedCells g acts) (cellsToActionsToThere acts)))"
  let ?res' = "concat (map snd
     (AList.restrict (- rejectedCells g acts') (cellsToActionsToThere acts')))"
  have 1: "handleMovementActions g acts = Some ?res"
    by (rule handleMovementActions_result [OF assms(2)])
  have 2: "handleMovementActions g acts' = Some ?res'"
    by (rule handleMovementActions_result [OF mov'])
  have 3: "mset ?res' = mset ?res"
    by (simp add: mset_concat_restrict rejected_perm [OF assms(1)] assms(1))
  then have 4: "set ?res' = set ?res"
    by (rule mset_eq_setD)
  have 5: "set ?res = {a \<in> set acts. newcell a \<notin> rejectedCells g acts}"
    unfolding set_concat_restrict by simp
  from 1 2 3 4 5 show ?thesis by blast
qed

theorem movement_confluent_witness:
  "mset [moveTo A ''u_1'' EAST (1, 0), moveTo A ''u_3'' NORTH (0, 0)] =
     mset [moveTo A ''u_3'' NORTH (0, 0), moveTo A ''u_1'' EAST (1, 0)] \<and>
   movable rowGame (moveTo A ''u_3'' NORTH (0, 0)) \<and>
   movable rowGame (moveTo A ''u_1'' EAST (1, 0)) \<and>
   handleMovementActions rowGame [moveTo A ''u_3'' NORTH (0, 0), moveTo A ''u_1'' EAST (1, 0)] =
     Some [moveTo A ''u_3'' NORTH (0, 0), moveTo A ''u_1'' EAST (1, 0)] \<and>
   handleMovementActions rowGame [moveTo A ''u_1'' EAST (1, 0), moveTo A ''u_3'' NORTH (0, 0)] =
     Some [moveTo A ''u_1'' EAST (1, 0), moveTo A ''u_3'' NORTH (0, 0)] \<and>
   set [moveTo A ''u_1'' EAST (1, 0), moveTo A ''u_3'' NORTH (0, 0)] =
     set [moveTo A ''u_3'' NORTH (0, 0), moveTo A ''u_1'' EAST (1, 0)] \<and>
   (0, 0) \<notin> rejectedCells rowGame [moveTo A ''u_3'' NORTH (0, 0), moveTo A ''u_1'' EAST (1, 0)] \<and>
   (1, 0) \<notin> rejectedCells rowGame [moveTo A ''u_3'' NORTH (0, 0), moveTo A ''u_1'' EAST (1, 0)]"
proof -
  let ?a = "moveTo A ''u_3'' NORTH (0, 0)" and ?b = "moveTo A ''u_1'' EAST (1, 0)"
  have p: "mset [?b, ?a] = mset [?a, ?b]"
    by (simp add: add.commute)
  have mv: "\<forall>a \<in> set [?a, ?b]. movable rowGame a"
    by (rule rowGame_movable)
  from movement_confluent [OF p mv]
  obtain res res' where r: "handleMovementActions rowGame [?a, ?b] = Some res"
    "handleMovementActions rowGame [?b, ?a] = Some res'" "set res' = set res"
    "set res = {a \<in> set [?a, ?b]. newcell a \<notin> rejectedCells rowGame [?a, ?b]}"
    by (elim exE conjE) (rule that)
  from r(1) rowGame_run(1) have res: "res = [?a, ?b]" by simp
  from r(2) rowGame_run(2) have res': "res' = [?b, ?a]" by simp
  have "?a \<in> set res" "?b \<in> set res"
    by (simp_all add: res)
  then have "newcell ?a \<notin> rejectedCells rowGame [?a, ?b]"
    "newcell ?b \<notin> rejectedCells rowGame [?a, ?b]"
    unfolding r(4) by simp_all
  then have nr: "(0, 0) \<notin> rejectedCells rowGame [?a, ?b]" "(1, 0) \<notin> rejectedCells rowGame [?a, ?b]"
    by (simp_all add: moveTo_def)
  from r(3) have "set [?b, ?a] = set [?a, ?b]"
    by (simp only: res res')
  with p mv rowGame_run nr show ?thesis
    by simp
qed

text \<open>
  What the accepted actions never do: two of them never go to the same cell that is not a
  city tile; none goes to such a cell that holds exactly one unit when this unit has no
  action; and none goes to the origin of a rejected action, unless the origin is a city
  tile.
\<close>

lemma movement_collision_free:
  assumes mov: "\<forall>a \<in> set acts. movable g a"
    and res: "handleMovementActions g acts = Some res"
  shows "\<not> cityCell g p \<longrightarrow> length (filter (\<lambda>a. newcell a = p) res) \<le> 1"
    and "\<not> cityCell g p \<and> map_size (units (getCell (gmap g) p)) = 1 \<and>
         unitThereIsStill g (movingUnits acts) p \<longrightarrow> (\<forall>a \<in> set res. newcell a \<noteq> p)"
    and "a \<in> set acts \<and> a \<notin> set res \<and> \<not> cityCell g (origin g a) \<longrightarrow>
         (\<forall>b \<in> set res. newcell b \<noteq> origin g a)"
proof -
  let ?R = "rejectedCells g acts"
  from handleMovementActions_result [OF mov] res
  have r: "res = concat (map snd (AList.restrict (- ?R) (cellsToActionsToThere acts)))"
    by simp
  have s: "set res = {a \<in> set acts. newcell a \<notin> ?R}"
    unfolding r set_concat_restrict by simp
  have m: "mset res = filter_mset (\<lambda>a. newcell a \<notin> ?R) (mset acts)"
    unfolding r mset_concat_restrict by simp
  show "\<not> cityCell g p \<longrightarrow> length (filter (\<lambda>a. newcell a = p) res) \<le> 1"
  proof
    assume nc: "\<not> cityCell g p"
    have "length (filter (\<lambda>a. newcell a = p) res) =
        size (filter_mset (\<lambda>a. newcell a = p) (mset res))"
      by (metis mset_filter size_mset)
    also have "\<dots> = size (filter_mset (\<lambda>a. newcell a = p \<and> p \<notin> ?R) (mset acts))"
      unfolding m filter_filter_mset by (rule arg_cong [where f = size], rule filter_mset_cong) auto
    also have "\<dots> \<le> 1"
    proof (cases "p \<in> ?R")
      case True
      then show ?thesis by simp
    next
      case False
      then have "\<not> bump g acts p"
        using rejectedCells.direct by blast
      with nc have "length (actionsTo p acts) \<le> 1"
        by (auto simp: bump_def)
      moreover have "size (filter_mset (\<lambda>a. newcell a = p) (mset acts)) = length (actionsTo p acts)"
        unfolding actionsTo_def by (metis mset_filter size_mset)
      ultimately show ?thesis using False by simp
    qed
    finally show "length (filter (\<lambda>a. newcell a = p) res) \<le> 1" .
  qed
  show "\<not> cityCell g p \<and> map_size (units (getCell (gmap g) p)) = 1 \<and>
         unitThereIsStill g (movingUnits acts) p \<longrightarrow> (\<forall>a \<in> set res. newcell a \<noteq> p)"
  proof (intro impI ballI notI)
    fix b
    assume c: "\<not> cityCell g p \<and> map_size (units (getCell (gmap g) p)) = 1 \<and>
         unitThereIsStill g (movingUnits acts) p"
      and b: "b \<in> set res" "newcell b = p"
    from b s have ba: "b \<in> set acts" "p \<notin> ?R" by auto
    with b(2) have "b \<in> set (actionsTo p acts)"
      by (simp add: actionsTo_def)
    then have "length (actionsTo p acts) = 1 \<or> length (actionsTo p acts) > 1"
      by (cases "actionsTo p acts") (auto simp: less_Suc_eq_0_disj)
    with c have "bump g acts p"
      by (auto simp: bump_def)
    with ba(2) show False
      using rejectedCells.direct by blast
  qed
  show "a \<in> set acts \<and> a \<notin> set res \<and> \<not> cityCell g (origin g a) \<longrightarrow>
         (\<forall>b \<in> set res. newcell b \<noteq> origin g a)"
  proof (intro impI ballI notI)
    fix b
    assume c: "a \<in> set acts \<and> a \<notin> set res \<and> \<not> cityCell g (origin g a)"
      and b: "b \<in> set res" "newcell b = origin g a"
    from c s have "newcell a \<in> ?R" by auto
    with c have "origin g a \<in> ?R"
      using rejectedCells.backward by blast
    with b s show False by auto
  qed
qed

text \<open>
  The scenario of C3: \<open>u_1\<close> on (0,0) goes east and \<open>u_2\<close> on (2,0) goes west, both to (1,0),
  and \<open>u_3\<close> goes north to (0,0), which \<open>u_1\<close> was to leave. All three actions are rejected.
\<close>

lemma bump_scenario:
  "handleMovementActions rowGame
     [moveTo A ''u_1'' EAST (1, 0), moveTo B ''u_2'' WEST (1, 0), moveTo A ''u_3'' NORTH (0, 0)] =
   Some []"
  by code_simp

text \<open>
  C3. By the specification no accepted action goes to a cell that is not a city tile
  and holds a unit without an accepted action. The source looks for a unit that stays
  only when the cell holds exactly one unit. In \<open>stackedGame\<close> the units \<open>u_2\<close> and \<open>u_3\<close> stand on
  the city tile (1,0); \<open>destroyCity\<close> removes the city and leaves both on the cell, which
  is no longer a city tile. Neither has an action, and the action of \<open>u_1\<close> that goes to
  their cell is accepted.
\<close>

theorem stationary_units_overrun:
  "destroyCity stackedGame ''c_1'' \<noteq> None \<and>
   \<not> isCityTile (getCell (gmap (the (destroyCity stackedGame ''c_1''))) (1, 0)) \<and>
   map fst (units (getCell (gmap (the (destroyCity stackedGame ''c_1''))) (1, 0))) =
     [''u_2'', ''u_3''] \<and>
   handleMovementActions (the (destroyCity stackedGame ''c_1''))
      [moveTo A ''u_1'' EAST (1, 0)] = Some [moveTo A ''u_1'' EAST (1, 0)]"
  by code_simp

end
